theory Spec2Isabelle
  imports Main
begin

section \<open>Text, characters and the regular expressions of the parser\<close>

text \<open>
  The parser (\<^verbatim>\<open>src/parser/parser.ts\<close>) works on JavaScript strings, one UTF-16 code
  unit at a time (\<^verbatim>\<open>str[i]\<close>). The text is modelled as a \<^typ>\<open>string\<close>: a list of
  code units below 256, the Latin-1 part of UTF-16. Reading past either end of the string
  gives \<^verbatim>\<open>undefined\<close> in the source and \<^term>\<open>None\<close> here.
\<close>

definition charAt :: "string \<Rightarrow> int \<Rightarrow> char option" where
  "charAt str i = (if 0 \<le> i \<and> nat i < length str then Some (str ! nat i) else None)"

definition code :: "char \<Rightarrow> nat" where
  "code c = of_char c"

text \<open>The Unicode general categories L, N and P, on the code units below 256.\<close>

definition isLetter :: "char \<Rightarrow> bool" where
  "isLetter c = (let n = code c in
     (65 \<le> n \<and> n \<le> 90) \<or> (97 \<le> n \<and> n \<le> 122) \<or> n = 170 \<or> n = 181 \<or> n = 186 \<or>
     (192 \<le> n \<and> n \<le> 214) \<or> (216 \<le> n \<and> n \<le> 246) \<or> (248 \<le> n \<and> n \<le> 255))"

definition isNumber :: "char \<Rightarrow> bool" where
  "isNumber c = (let n = code c in
     (48 \<le> n \<and> n \<le> 57) \<or> n = 178 \<or> n = 179 \<or> n = 185 \<or> (188 \<le> n \<and> n \<le> 190))"

definition isPunctuation :: "char \<Rightarrow> bool" where
  "isPunctuation c = (let n = code c in
     n \<in> {33, 34, 35, 37, 38, 39, 40, 41, 42, 44, 45, 46, 47, 58, 59, 63, 64, 91, 92, 93, 95,
          123, 125, 161, 167, 171, 182, 183, 187, 191})"

text \<open>\<^verbatim>\<open>const alphaNumeric = /[\p{L}\p{N}]/u\<close>, tested on one defined character.\<close>

definition alphaNumeric :: "char \<Rightarrow> bool" where
  "alphaNumeric c = (isLetter c \<or> isNumber c)"

text \<open>
  \<^verbatim>\<open>const punct = /[:.#$%&\-+?<>~_/]/\<close>. The source also tests \<^verbatim>\<open>next\<close>, which may be
  \<^verbatim>\<open>undefined\<close>: \<^verbatim>\<open>test\<close> then reads the string "undefined", which holds none of
  these characters (nor a blank), so the test is false.
\<close>

definition punct :: "char \<Rightarrow> bool" where
  "punct c = (c \<in> set '':.#$%&-+?<>~_/'')"

definition punctTest :: "char option \<Rightarrow> bool" where
  "punctTest s = (case s of None \<Rightarrow> False | Some c \<Rightarrow> punct c)"

text \<open>\<^verbatim>\<open>const nonKeyPunct = /\p{P}/u\<close>\<close>

definition nonKeyPunct :: "char \<Rightarrow> bool" where
  "nonKeyPunct c = isPunctuation c"

text \<open>\<^verbatim>\<open>const space = /[ \t\v]/\<close>\<close>

definition space :: "char \<Rightarrow> bool" where
  "space c = (c = CHR '' '' \<or> c = CHR 0x09 \<or> c = CHR 0x0B)"

definition spaceTest :: "char option \<Rightarrow> bool" where
  "spaceTest s = (case s of None \<Rightarrow> False | Some c \<Rightarrow> space c)"

text \<open>\<^verbatim>\<open>const preKey = /[ \t\v[\-\r\n;|]/\<close>\<close>

definition preKey :: "char \<Rightarrow> bool" where
  "preKey c = (c = CHR '' '' \<or> c = CHR 0x09 \<or> c = CHR 0x0B \<or> c = CHR ''['' \<or> c = CHR ''-'' \<or>
     c = CHR 0x0D \<or> c = CHR 0x0A \<or> c = CHR '';'' \<or> c = CHR ''|'')"

text \<open>\<^verbatim>\<open>const postKeyPunct = /[.?,;):]/\<close>\<close>

definition postKeyPunct :: "char \<Rightarrow> bool" where
  "postKeyPunct c = (c \<in> set ''.?,;):'')"

text \<open>
  \<^verbatim>\<open>const citeTypes = /(fig|tbl|eq|sec)/\<close> is not anchored: \<^verbatim>\<open>test\<close> holds as soon as
  the string contains one of the four words.
\<close>

fun contains :: "string \<Rightarrow> string \<Rightarrow> bool" where
  "contains p [] = (p = [])"
| "contains p (c # cs) = (take (length p) (c # cs) = p \<or> contains p cs)"

definition citeTypes :: "string \<Rightarrow> bool" where
  "citeTypes s = (contains ''fig'' s \<or> contains ''tbl'' s \<or> contains ''eq'' s \<or> contains ''sec'' s)"

text \<open>\<^verbatim>\<open>function isTerminus(s?: string) { return !s || s === '\r' || s === '\n'; }\<close>\<close>

definition isTerminus :: "char option \<Rightarrow> bool" where
  "isTerminus s = (s = None \<or> s = Some (CHR 0x0D) \<or> s = Some (CHR 0x0A))"

text \<open>\<^verbatim>\<open>function isValidPreKey(s?: string) { return !s || preKey.test(s); }\<close>\<close>

definition isValidPreKey :: "char option \<Rightarrow> bool" where
  "isValidPreKey s = (case s of None \<Rightarrow> True | Some c \<Rightarrow> preKey c)"

subsection \<open>A backtracking matcher for \<^verbatim>\<open>locatorRe\<close>\<close>

text \<open>
  A regular expression is run the way the JavaScript engine runs it: alternatives in
  order, quantifiers greedy, an iteration of a starred group that consumes nothing
  refused. \<open>rx_run r s\<close> lists, in the engine's order of preference, what is left of \<open>s\<close>
  after each way \<open>r\<close> matches at its start.
\<close>

datatype rx = Cls "char \<Rightarrow> bool" | Seq rx rx | Alt rx rx | Opt rx | Star rx

primrec star_iter :: "(string \<Rightarrow> string list) \<Rightarrow> nat \<Rightarrow> string \<Rightarrow> string list" where
  "star_iter m 0 s = [s]"
| "star_iter m (Suc n) s =
     concat (map (star_iter m n) (filter (\<lambda>r. length r < length s) (m s))) @ [s]"

primrec rx_run :: "rx \<Rightarrow> string \<Rightarrow> string list" where
  "rx_run (Cls p) s = (case s of [] \<Rightarrow> [] | c # cs \<Rightarrow> if p c then [cs] else [])"
| "rx_run (Seq a b) s = concat (map (rx_run b) (rx_run a s))"
| "rx_run (Alt a b) s = rx_run a s @ rx_run b s"
| "rx_run (Opt a) s = rx_run a s @ [s]"
| "rx_run (Star a) s = star_iter (rx_run a) (length s) s"

definition Plus :: "rx \<Rightarrow> rx" where
  "Plus a = Seq a (Star a)"

text \<open>
  \<^verbatim>\<open>const locatorRe = /^((?:A|B|C)(?:[ \t]*,[ \t]*(?:A|B|C))*)/iu\<close> with
  A = \<^verbatim>\<open>[[(]?[a-z\p{N}]+[\])]?[-\u2014:][[(]?[a-z\p{N}]+[\])]?\<close>,
  B = \<^verbatim>\<open>[a-z\p{N}()[\]]*\p{N}+[a-z\p{N}()[\]]*\<close> and C = \<^verbatim>\<open>[mdclxvi]+\<close>.
  Under the flag \<^verbatim>\<open>i\<close> the class \<^verbatim>\<open>[a-z]\<close> also holds A to Z. The em dash of A is
  code unit 8212 and does not occur in a text of code units below 256.
\<close>

definition asciiLetter :: "char \<Rightarrow> bool" where
  "asciiLetter c = (let n = code c in (65 \<le> n \<and> n \<le> 90) \<or> (97 \<le> n \<and> n \<le> 122))"

definition locWord :: rx where
  "locWord = Cls (\<lambda>c. asciiLetter c \<or> isNumber c)"

definition locOpen :: rx where
  "locOpen = Opt (Cls (\<lambda>c. c = CHR ''['' \<or> c = CHR ''(''))"

definition locClose :: rx where
  "locClose = Opt (Cls (\<lambda>c. c = CHR '']'' \<or> c = CHR '')''))"

definition locBracketed :: rx where
  "locBracketed = Cls (\<lambda>c. asciiLetter c \<or> isNumber c \<or> c \<in> set ''()[]'')"

definition locRange :: rx where
  "locRange = Seq locOpen (Seq (Plus locWord) (Seq locClose
     (Seq (Cls (\<lambda>c. c = CHR ''-'' \<or> c = CHR '':''))
       (Seq locOpen (Seq (Plus locWord) locClose)))))"

definition locNumbered :: rx where
  "locNumbered = Seq (Star locBracketed) (Seq (Plus (Cls isNumber)) (Star locBracketed))"

definition locRoman :: rx where
  "locRoman = Plus (Cls (\<lambda>c. c \<in> set ''mdclxviMDCLXVI''))"

definition locItem :: rx where
  "locItem = Alt locRange (Alt locNumbered locRoman)"

definition locBlank :: rx where
  "locBlank = Cls (\<lambda>c. c = CHR '' '' \<or> c = CHR 0x09)"

definition locatorRx :: rx where
  "locatorRx = Seq locItem
     (Star (Seq (Star locBlank) (Seq (Cls (\<lambda>c. c = CHR '','')) (Seq (Star locBlank) locItem))))"

text \<open>
  \<^verbatim>\<open>sliced.match(locatorRe)\<close>: the expression is anchored at the start and its one group
  is the whole match, so the result is that prefix of the string (\<^verbatim>\<open>locMatch[1]\<close>), or
  nothing.
\<close>

definition locatorRe :: "string \<Rightarrow> string option" where
  "locatorRe s = (case rx_run locatorRx s of [] \<Rightarrow> None
     | r # _ \<Rightarrow> Some (take (length s - length r) s))"

subsection \<open>The locator-label expression and the term table of \<^verbatim>\<open>./locators\<close>\<close>

text \<open>
  \<^verbatim>\<open>import { locatorToTerm, locators } from './locators'\<close>: the file is not part of the
  sources at hand. The parser reads the result of \<^verbatim>\<open>val.match(locators)\<close> through
  \<^verbatim>\<open>match.index\<close>, \<^verbatim>\<open>match[0]\<close> and the groups 1 to 3, so the expression is a
  parameter of the model: a function from the string to that result. An unset or empty
  group 1 or 3 is the empty string (the source tests both with \<^verbatim>\<open>if (sp0)\<close>); group 2
  is taken to be set whenever the expression matches.
\<close>

record LocMatch =
  m_index :: nat
  m_whole :: string
  m_sp0 :: string
  m_label :: string
  m_sp1 :: string

type_synonym locators = "string \<Rightarrow> LocMatch option"

text \<open>
  The contract the spec gives for the expression: it matches at the start of the string
  an optional separator span, a label of a fixed vocabulary and the blanks after it.
\<close>

definition locators_wf :: "locators \<Rightarrow> bool" where
  "locators_wf L = (\<forall>s m. L s = Some m \<longrightarrow>
     m_index m = 0 \<and> m_whole m = m_sp0 m @ m_label m @ m_sp1 m \<and>
     take (length (m_whole m)) s = m_whole m \<and> m_label m \<noteq> [])"

text \<open>
  Modelled from the spec: the \<^verbatim>\<open>locators\<close> expression of \<^verbatim>\<open>./locators\<close>, which is
  missing from the sources. The spec (4.1) says it extracts "an optional leading separator
  span, a locator-label token when one of a fixed vocabulary of label abbreviations is
  present", and its examples use the abbreviations "p." and "pp."; the vocabulary itself
  is not listed there, so it is a parameter.
\<close>

fun firstPrefix :: "string list \<Rightarrow> string \<Rightarrow> string option" where
  "firstPrefix [] s = None"
| "firstPrefix (l # ls) s = (if l \<noteq> [] \<and> take (length l) s = l then Some l else firstPrefix ls s)"

definition isSeparatorSpan :: "char \<Rightarrow> bool" where
  "isSeparatorSpan c = (c = CHR '' '' \<or> c = CHR 0x09 \<or> c = CHR '','')"

definition locatorsOf :: "string list \<Rightarrow> locators" where
  "locatorsOf vocabulary s =
     (let sp0 = takeWhile isSeparatorSpan s; rest = dropWhile isSeparatorSpan s in
      case firstPrefix vocabulary rest of
        None \<Rightarrow> None
      | Some l \<Rightarrow>
          (let sp1 = takeWhile (\<lambda>c. c = CHR '' '' \<or> c = CHR 0x09) (drop (length l) rest) in
           Some \<lparr>m_index = 0, m_whole = sp0 @ l @ sp1, m_sp0 = sp0, m_label = l, m_sp1 = sp1\<rparr>))"

definition locatorsEn :: locators where
  "locatorsEn = locatorsOf [''pp.'', ''p.'']"

section \<open>Segments and the scanner's state\<close>

datatype SegmentType =
    At | Key | CurlyBracket
  | Suppressor | Bracket | Prefix | Suffix | LocatorSuffix | Locator | LocatorLabel | Separator
  | LitNote | LinkSeparator
  | CiteType | TypeSeparator

text \<open>\<^verbatim>\<open>interface Segment { type; from; to; val }\<close>\<close>

record Segment =
  seg_type :: SegmentType
  seg_from :: nat
  seg_to :: nat
  seg_val :: string

record State =
  inBrackets :: bool
  inExplicitKey :: bool
  inExplicitLocator :: bool
  inKey :: bool
  inLink :: bool
  inSuffix :: bool
  seekingSuffix :: bool
  seekingLocator :: bool
  encounteredKey :: bool
  shouldCancelSeek :: bool
  segment :: "Segment list"
  currentSegment :: Segment
  bracketDepth :: int

text \<open>
  \<^verbatim>\<open>newState()\<close> leaves \<^verbatim>\<open>currentSegment\<close> null, and both places that call it assign the
  field before anything reads the state; the model takes that first segment as argument.
\<close>

definition newState :: "Segment \<Rightarrow> State" where
  "newState cur = \<lparr>inBrackets = False, inExplicitKey = False, inExplicitLocator = False,
     inKey = False, inLink = False, inSuffix = False, seekingSuffix = False,
     seekingLocator = False, encounteredKey = False, shouldCancelSeek = False,
     segment = [], currentSegment = cur, bracketDepth = 0\<rparr>"

definition newCurrent :: "nat \<Rightarrow> char \<Rightarrow> SegmentType \<Rightarrow> Segment" where
  "newCurrent i c t = \<lparr>seg_type = t, seg_from = i, seg_to = i + 1, seg_val = [c]\<rparr>"

definition mkSeg :: "SegmentType \<Rightarrow> nat \<Rightarrow> string \<Rightarrow> Segment" where
  "mkSeg t index v = \<lparr>seg_type = t, seg_from = index, seg_to = index + length v, seg_val = v\<rparr>"

subsection \<open>\<^verbatim>\<open>parsePossibleLocator\<close> and \<^verbatim>\<open>parseExplicitLocator\<close>\<close>

text \<open>
  The segments of the label part, shared by both functions in the source (the same lines
  twice): the separator span if it is not empty, the label, the blanks if not empty; and
  the index after them.
\<close>

definition labelSegments :: "LocMatch \<Rightarrow> nat \<Rightarrow> Segment list \<times> nat" where
  "labelSegments m index0 =
     (let sp0 = m_sp0 m; label = m_label m; sp1 = m_sp1 m;
          segs0 = (if sp0 \<noteq> [] then [mkSeg LocatorSuffix index0 sp0] else []);
          index1 = (if sp0 \<noteq> [] then index0 + length sp0 else index0);
          segs1 = segs0 @ [mkSeg LocatorLabel index1 label];
          index2 = index1 + length label;
          segs2 = (if sp1 \<noteq> [] then segs1 @ [mkSeg LocatorSuffix index2 sp1] else segs1);
          index3 = (if sp1 \<noteq> [] then index2 + length sp1 else index2)
      in (segs2, index3))"

definition parsePossibleLocator :: "locators \<Rightarrow> Segment \<Rightarrow> Segment list" where
  "parsePossibleLocator L cur =
     (case L (seg_val cur) of
        None \<Rightarrow> []
      | Some m \<Rightarrow>
          (let (segs, index) = labelSegments m (seg_from cur);
               sliced = drop (m_index m + length (m_whole m)) (seg_val cur)
           in case locatorRe sliced of
                None \<Rightarrow> []
              | Some loc \<Rightarrow>
                  (let segs' = segs @ [mkSeg Locator index loc];
                       index' = index + length loc;
                       suffix = drop (length loc) sliced
                   in if suffix \<noteq> [] then segs' @ [mkSeg Suffix index' suffix] else segs')))"

text \<open>
  \<^verbatim>\<open>parseExplicitLocator\<close> retypes the current segment to \<^verbatim>\<open>locator\<close> when the label
  expression does not match; the model returns the segment with the list.
\<close>

definition parseExplicitLocator :: "locators \<Rightarrow> Segment \<Rightarrow> Segment list \<times> Segment" where
  "parseExplicitLocator L cur =
     (case L (seg_val cur) of
        None \<Rightarrow> ([], cur\<lparr>seg_type := Locator\<rparr>)
      | Some m \<Rightarrow>
          (let (segs, index) = labelSegments m (seg_from cur);
               sliced = drop (m_index m + length (m_whole m)) (seg_val cur)
           in if sliced \<noteq> [] then (segs @ [mkSeg Locator index sliced], cur) else ([], cur)))"

subsection \<open>The helpers of \<^verbatim>\<open>getCitationSegments\<close>\<close>

text \<open>
  The loop of \<^verbatim>\<open>getCitationSegments\<close> owns three variables: \<^verbatim>\<open>state\<close>,
  \<^verbatim>\<open>seekState\<close> (both may be null) and the result \<^verbatim>\<open>segments\<close>. A state is dropped as
  soon as its segment list is pushed to the result, and a segment is replaced as soon as
  it is pushed to its state's list, so no object is changed after it was shared:
  values model them.
\<close>

record Scan =
  state :: "State option"
  seekState :: "State option"
  segments :: "Segment list list"

datatype error = TypeError

text \<open>
  \<^verbatim>\<open>endSegment\<close>: the state's list is pushed if \<^verbatim>\<open>encounteredKey\<close> is set, and the
  state is dropped.
\<close>

definition endSegment :: "State \<Rightarrow> Scan \<Rightarrow> Scan" where
  "endSegment st sc =
     sc\<lparr>state := None,
        segments := (if encounteredKey st then segments sc @ [segment st] else segments sc)\<rparr>"

definition pushCurrent :: "nat \<Rightarrow> State \<Rightarrow> State" where
  "pushCurrent i st =
     (let cur = (currentSegment st)\<lparr>seg_to := i\<rparr>
      in st\<lparr>currentSegment := cur, segment := segment st @ [cur]\<rparr>)"

definition seekLocator :: "State option \<Rightarrow> bool" where
  "seekLocator seek = (case seek of None \<Rightarrow> False | Some k \<Rightarrow> seekingLocator k)"

definition endCurrent :: "locators \<Rightarrow> State option \<Rightarrow> nat \<Rightarrow> State \<Rightarrow> State" where
  "endCurrent L seek i st =
     (if seekingLocator st \<or> seekLocator seek then
        (if seg_type (currentSegment st) = Suffix then
           (let segs = parsePossibleLocator L (currentSegment st)
            in if segs \<noteq> [] then st\<lparr>segment := segment st @ segs, seekingLocator := False\<rparr>
               else pushCurrent i st)
         else if seg_type (currentSegment st) = LocatorSuffix then
           (let (segs, cur) = parseExplicitLocator L (currentSegment st);
                st' = st\<lparr>currentSegment := cur\<rparr>
            in if segs \<noteq> [] then st'\<lparr>segment := segment st' @ segs, seekingLocator := False\<rparr>
               else pushCurrent i st')
         else pushCurrent i st)
      else pushCurrent i st)"

text \<open>A branch of the loop body either ends in \<^verbatim>\<open>continue\<close> or falls to the next test.\<close>

datatype flow = Continue Scan | Fall Scan

definition setCurrent :: "Segment \<Rightarrow> State \<Rightarrow> State" where
  "setCurrent cur st = st\<lparr>currentSegment := cur\<rparr>"

definition appendChar :: "char \<Rightarrow> State \<Rightarrow> State" where
  "appendChar c st = st\<lparr>currentSegment := (currentSegment st)\<lparr>seg_val := seg_val (currentSegment st) @ [c]\<rparr>\<rparr>"

definition retype :: "SegmentType \<Rightarrow> State \<Rightarrow> State" where
  "retype t st = st\<lparr>currentSegment := (currentSegment st)\<lparr>seg_type := t\<rparr>\<rparr>"

text \<open>\<^verbatim>\<open>if (c === '[') { ... }\<close>, lines 848 to 862.\<close>

definition openState :: "nat \<Rightarrow> char option \<Rightarrow> State" where
  "openState i prev = (newState (newCurrent i (CHR ''['') Bracket))
     \<lparr>inBrackets := True, inLink := (prev = Some (CHR ''['')), bracketDepth := 1\<rparr>"

definition onOpenBracket :: "nat \<Rightarrow> char option \<Rightarrow> char option \<Rightarrow> Scan \<Rightarrow> flow" where
  "onOpenBracket i prev next sc =
     (case state sc of
        None \<Rightarrow>
          if next = Some (CHR ''['') then Continue sc
          else Continue (sc\<lparr>state := Some (openState i prev)\<rparr>)
      | Some st \<Rightarrow>
          (let st1 = st\<lparr>bracketDepth := bracketDepth st + 1\<rparr> in
           if bracketDepth st1 = 1 then
             Continue (sc\<lparr>seekState := (if seekingSuffix st1 then Some st1 else seekState sc),
                          state := Some (openState i prev)\<rparr>)
           else Fall (sc\<lparr>state := Some st1\<rparr>)))"

text \<open>
  \<^verbatim>\<open>if (c === '@' && isValidPreKey(prev)) { ... }\<close>, lines 864 to 880. The test
  \<^verbatim>\<open>seekState && state.shouldCancelSeek\<close> reads a field of \<^verbatim>\<open>state\<close> without asking
  whether it is null: a TypeError when a seek state is pending and no state is open.
\<close>

definition onAt :: "locators \<Rightarrow> nat \<Rightarrow> Scan \<Rightarrow> error + Scan" where
  "onAt L i sc =
     (if seekState sc \<noteq> None \<and> state sc = None then Inl TypeError
      else
        (let sc1 = (case (seekState sc, state sc) of
                      (Some k, Some st) \<Rightarrow>
                        if shouldCancelSeek st
                        then sc\<lparr>segments := segments sc @ [segment k], seekState := None\<rparr>
                        else sc
                    | _ \<Rightarrow> sc);
             st1 = (case state sc1 of
                      Some st \<Rightarrow>
                        if inBrackets st then endCurrent L (seekState sc1) i st
                        else newState (newCurrent i (CHR ''@'') At)
                    | None \<Rightarrow> newState (newCurrent i (CHR ''@'') At))
         in Inr (sc1\<lparr>state := Some (st1\<lparr>currentSegment := newCurrent i (CHR ''@'') At,
                                        inKey := True, encounteredKey := True\<rparr>)\<rparr>)))"

text \<open>
  \<^verbatim>\<open>if (state?.inKey) { ... }\<close>, lines 887 to 1036, block by block. Where the source
  tests \<^verbatim>\<open>!state.inBrackets\<close> after \<^verbatim>\<open>endCurrent\<close>, the model reads the flag before it:
  \<^verbatim>\<open>endCurrent\<close> does not write it.

  \<^verbatim>\<open>if (!state.inBrackets) { endCurrent(i); endSegment(); } state = null; continue;\<close>,
  at a terminus (lines 888 to 895) and at punctuation before a terminus (974 to 981).
\<close>

definition keyTerminus :: "locators \<Rightarrow> nat \<Rightarrow> State \<Rightarrow> Scan \<Rightarrow> flow" where
  "keyTerminus L i st sc =
     (if \<not> inBrackets st then Continue (endSegment (endCurrent L (seekState sc) i st) sc)
      else Continue (sc\<lparr>state := None\<rparr>))"

text \<open>\<^verbatim>\<open>if (prev === '@' || prev === ':') { ... }\<close>, lines 899 to 915.\<close>

definition keyStart :: "locators \<Rightarrow> nat \<Rightarrow> char \<Rightarrow> State \<Rightarrow> Scan \<Rightarrow> flow" where
  "keyStart L i ch st sc =
     (let ended = endCurrent L (seekState sc) i st in
      if alphaNumeric ch \<or> ch = CHR ''_'' then
        Continue (sc\<lparr>state := Some (setCurrent (newCurrent i ch Key) ended)\<rparr>)
      else if ch = CHR ''{'' then
        Continue (sc\<lparr>state := Some ((setCurrent (newCurrent i ch CurlyBracket) ended)
                                       \<lparr>inExplicitKey := True\<rparr>)\<rparr>)
      else Continue (sc\<lparr>state := None\<rparr>))"

text \<open>\<^verbatim>\<open>if (state.inExplicitKey && c !== '}') { ... }\<close>, lines 917 to 925.\<close>

definition keyExplicit :: "locators \<Rightarrow> nat \<Rightarrow> char \<Rightarrow> State \<Rightarrow> Scan \<Rightarrow> flow" where
  "keyExplicit L i ch st sc =
     (if seg_type (currentSegment st) \<noteq> Key then
        Continue (sc\<lparr>state := Some (setCurrent (newCurrent i ch Key)
                                       (endCurrent L (seekState sc) i st))\<rparr>)
      else Continue (sc\<lparr>state := Some (appendChar ch st)\<rparr>))"

text \<open>\<^verbatim>\<open>if (c === '}') { ... }\<close>, lines 927 to 941.\<close>

definition keyCloseBrace :: "locators \<Rightarrow> nat \<Rightarrow> char \<Rightarrow> State \<Rightarrow> Scan \<Rightarrow> flow" where
  "keyCloseBrace L i ch st sc =
     (let st1 = (endCurrent L (seekState sc) i st)
                  \<lparr>inKey := False, inExplicitKey := True, seekingLocator := True\<rparr> in
      if \<not> inBrackets st then
        Continue (sc\<lparr>state := Some (st1\<lparr>segment := segment st1 @ [newCurrent i ch CurlyBracket],
                                        seekingSuffix := True, shouldCancelSeek := True\<rparr>)\<rparr>)
      else
        Continue (sc\<lparr>state := Some ((setCurrent (newCurrent i ch CurlyBracket) st1)
                                       \<lparr>inSuffix := True\<rparr>)\<rparr>))"

text \<open>\<^verbatim>\<open>if (c === '{') { ... }\<close>, lines 943 to 951.\<close>

definition keyOpenBrace :: "locators \<Rightarrow> nat \<Rightarrow> char \<Rightarrow> State \<Rightarrow> Scan \<Rightarrow> flow" where
  "keyOpenBrace L i ch st sc =
     Continue (sc\<lparr>state := Some ((setCurrent (newCurrent i ch CurlyBracket)
                                    (endCurrent L (seekState sc) i st))
        \<lparr>inKey := False, inSuffix := True, seekingLocator := True, inExplicitLocator := True\<rparr>)\<rparr>)"

text \<open>\<^verbatim>\<open>if (space.test(c)) { ... }\<close>, lines 958 to 971.\<close>

definition keySpace :: "locators \<Rightarrow> nat \<Rightarrow> char \<Rightarrow> State \<Rightarrow> Scan \<Rightarrow> flow" where
  "keySpace L i ch st sc =
     (let st1 = (endCurrent L (seekState sc) i st)\<lparr>inKey := False, seekingLocator := True\<rparr> in
      if \<not> inBrackets st then
        Continue (sc\<lparr>state := Some (st1\<lparr>seekingSuffix := True, shouldCancelSeek := True\<rparr>)\<rparr>)
      else
        Continue (sc\<lparr>state := Some ((setCurrent (newCurrent i ch Suffix) st1)
                                       \<lparr>inSuffix := True\<rparr>)\<rparr>))"

text \<open>\<^verbatim>\<open>if (punct.test(c)) { ... }\<close>, lines 973 to 1026.\<close>

definition keyPunct :: "locators \<Rightarrow> nat \<Rightarrow> char \<Rightarrow> char option \<Rightarrow> State \<Rightarrow> Scan \<Rightarrow> flow" where
  "keyPunct L i ch next st sc =
     (let seek = seekState sc; ended = endCurrent L seek i st in
      if isTerminus next then keyTerminus L i st sc
      else if citeTypes (seg_val (currentSegment st)) then
        Continue (sc\<lparr>state := Some (setCurrent (newCurrent i ch TypeSeparator)
                                       (endCurrent L seek i (retype CiteType st)))\<rparr>)
      else if punctTest next then
        (let st1 = ended\<lparr>inKey := False\<rparr> in
         if \<not> inBrackets st then Continue (endSegment st1 sc)
         else Continue (sc\<lparr>state := Some ((setCurrent (newCurrent i ch Suffix) st1)
                                           \<lparr>inSuffix := True, seekingLocator := True\<rparr>)\<rparr>))
      else if spaceTest next then
        (if \<not> inBrackets st \<and> postKeyPunct ch then Continue (endSegment ended sc)
         else if \<not> inBrackets st then Continue (endSegment st sc)
         else Continue (sc\<lparr>state := Some ((setCurrent (newCurrent i ch Suffix) (ended\<lparr>inKey := False\<rparr>))
                                           \<lparr>inSuffix := True, seekingLocator := True\<rparr>)\<rparr>))
      else Continue (sc\<lparr>state := Some (appendChar ch st)\<rparr>))"

text \<open>
  \<^verbatim>\<open>if (!state.inBrackets) { ... }\<close>, lines 1028 to 1035; in brackets the character
  falls to the next test of the loop body.
\<close>

definition keyOther :: "locators \<Rightarrow> nat \<Rightarrow> char \<Rightarrow> State \<Rightarrow> Scan \<Rightarrow> flow" where
  "keyOther L i ch st sc =
     (if \<not> inBrackets st then
        (if nonKeyPunct ch then Continue (endSegment (endCurrent L (seekState sc) i st) sc)
         else Continue (sc\<lparr>state := None\<rparr>))
      else Fall sc)"

definition onKey ::
  "locators \<Rightarrow> nat \<Rightarrow> char option \<Rightarrow> char option \<Rightarrow> char option \<Rightarrow> State \<Rightarrow> Scan \<Rightarrow> flow" where
  "onKey L i prev c next st sc =
     (if isTerminus c then keyTerminus L i st sc
      else case c of
        None \<Rightarrow> keyTerminus L i st sc
      | Some ch \<Rightarrow>
          if prev = Some (CHR ''@'') \<or> prev = Some (CHR '':'') then keyStart L i ch st sc
          else if inExplicitKey st \<and> ch \<noteq> CHR ''}'' then keyExplicit L i ch st sc
          else if ch = CHR ''}'' then keyCloseBrace L i ch st sc
          else if ch = CHR ''{'' then keyOpenBrace L i ch st sc
          else if alphaNumeric ch then Continue (sc\<lparr>state := Some (appendChar ch st)\<rparr>)
          else if space ch then keySpace L i ch st sc
          else if punct ch then keyPunct L i ch next st sc
          else keyOther L i ch st sc)"

text \<open>
  \<^verbatim>\<open>if (state?.inBrackets) { ... }\<close>, lines 1038 to 1166: first what follows the test of
  \<^verbatim>\<open>']'\<close> for a character that does not close the group, as the next state.
\<close>

definition bracketChar ::
  "locators \<Rightarrow> State option \<Rightarrow> nat \<Rightarrow> char option \<Rightarrow> char \<Rightarrow> char option \<Rightarrow> State \<Rightarrow> State" where
  "bracketChar L seek i prev ch next st =
     (let rest = (if inKey st then
                    (setCurrent (newCurrent i ch Suffix) (endCurrent L seek i st))
                      \<lparr>inSuffix := True, inKey := False, seekingLocator := True\<rparr>
                  else appendChar ch st)
      in
      if ch = CHR '';'' then
        setCurrent (newCurrent i ch Separator) (endCurrent L seek i (st\<lparr>shouldCancelSeek := False\<rparr>))
      else if ch = CHR ''-'' \<and> next = Some (CHR ''@'') then
        setCurrent (newCurrent i ch Suppressor) (endCurrent L seek i (st\<lparr>shouldCancelSeek := False\<rparr>))
      else if ch = CHR ''|'' \<and> next = Some (CHR ''@'') then
        setCurrent (newCurrent i ch LinkSeparator)
          (endCurrent L seek i (retype LitNote (st\<lparr>shouldCancelSeek := False\<rparr>)))
      else if ch = CHR ''{'' then
        (let st1 = setCurrent (newCurrent i ch CurlyBracket) (endCurrent L seek i st) in
         if seekLocator seek then st1\<lparr>inExplicitLocator := True\<rparr> else st1)
      else if ch = CHR ''}'' then
        (let st1 = (if inExplicitLocator st \<and> seg_type (currentSegment st) = Suffix
                    then (retype LocatorSuffix st)\<lparr>seekingLocator := False\<rparr> else st)
         in setCurrent (newCurrent i ch CurlyBracket) (endCurrent L seek i st1))
      else if prev = Some (CHR ''{'') then
        (let st1 = endCurrent L seek i st in
         (if seekingLocator st1 \<and> encounteredKey st1
          then setCurrent (newCurrent i ch LocatorSuffix) st1
          else setCurrent (newCurrent i ch Suffix) st1)\<lparr>inSuffix := True\<rparr>)
      else if prev = Some (CHR ''}'') \<or> prev = Some (CHR ''{'') then
        (setCurrent (newCurrent i ch Suffix) (endCurrent L seek i st))\<lparr>inSuffix := True\<rparr>
      else case seek of
        Some k \<Rightarrow>
          if prev = Some (CHR '';'') then
            (setCurrent (newCurrent i ch Prefix) (endCurrent L seek i st))\<lparr>inSuffix := False\<rparr>
          else if prev = Some (CHR ''['') \<and> bracketDepth st = 1 then
            (setCurrent (newCurrent i ch Suffix) (endCurrent L seek i st))\<lparr>inSuffix := True\<rparr>
          else rest
      | None \<Rightarrow>
          if prev = Some (CHR ''['') \<or> prev = Some (CHR '';'') then
            setCurrent (newCurrent i ch Prefix) (endCurrent L seek i st)
          else rest)"

definition onBrackets ::
  "locators \<Rightarrow> bool \<Rightarrow> nat \<Rightarrow> char option \<Rightarrow> char option \<Rightarrow> char option \<Rightarrow> State \<Rightarrow> Scan \<Rightarrow> Scan" where
  "onBrackets L ignoreLinks i prev c next st sc =
     (if isTerminus c then sc\<lparr>state := None\<rparr>
      else case c of
        None \<Rightarrow> sc\<lparr>state := None\<rparr>
      | Some ch \<Rightarrow>
          (let st0 = (if ch = CHR '']'' then st\<lparr>bracketDepth := bracketDepth st - 1\<rparr> else st) in
           if ch = CHR '']'' \<and> bracketDepth st0 = 0 then
             (if ignoreLinks \<and> (inLink st0 \<or> next = Some (CHR ''('')) then
                sc\<lparr>state := None, seekState := None\<rparr>
              else
                (let st1 = endCurrent L (seekState sc) i st0;
                     st2 = st1\<lparr>segment := segment st1 @ [newCurrent i ch Bracket]\<rparr>
                 in case seekState sc of
                      None \<Rightarrow> endSegment st2 sc
                    | Some k \<Rightarrow> sc\<lparr>segments := segments sc @ [segment k @ segment st2],
                                    seekState := None, state := None\<rparr>))
           else sc\<lparr>state := Some (bracketChar L (seekState sc) i prev ch next st0)\<rparr>))"

subsection \<open>The loop and \<^verbatim>\<open>getCitationSegments\<close>\<close>

text \<open>
  The loop body behind the test of \<^verbatim>\<open>'['\<close>, lines 864 to 1170: the \<^verbatim>\<open>@\<close>, the end of a
  bare citation that seeks a suffix, the key, the brackets, and the last test, which drops
  a state that is none of these.
\<close>

definition onChar ::
  "locators \<Rightarrow> bool \<Rightarrow> nat \<Rightarrow> char option \<Rightarrow> char option \<Rightarrow> char option \<Rightarrow> Scan \<Rightarrow> error + Scan" where
  "onChar L ignoreLinks i prev c next sc =
     (if c = Some (CHR ''@'') \<and> isValidPreKey prev then onAt L i sc
      else case state sc of
        None \<Rightarrow> Inr sc
      | Some st \<Rightarrow>
          if seekingSuffix st \<and> \<not> spaceTest c then Inr (endSegment st sc)
          else case (if inKey st then onKey L i prev c next st sc else Fall sc) of
            Continue sc' \<Rightarrow> Inr sc'
          | Fall sc2 \<Rightarrow>
              if inBrackets st then Inr (onBrackets L ignoreLinks i prev c next st sc2)
              else if seekingSuffix st then Inr sc2
              else Inr (sc2\<lparr>state := None\<rparr>))"

text \<open>One run of the loop body at index \<open>i\<close>, from the three variables to the three variables.\<close>

definition step :: "locators \<Rightarrow> bool \<Rightarrow> string \<Rightarrow> nat \<Rightarrow> Scan \<Rightarrow> error + Scan" where
  "step L ignoreLinks str i sc =
     (let prev = charAt str (int i - 1); c = charAt str (int i); next = charAt str (int i + 1) in
      case (if c = Some (CHR ''['') then onOpenBracket i prev next sc else Fall sc) of
        Continue sc' \<Rightarrow> Inr sc'
      | Fall sc1 \<Rightarrow> onChar L ignoreLinks i prev c next sc1)"

text \<open>
  \<^verbatim>\<open>for (let i = 0, len = str.length + 1; i < len; i++)\<close>: the body runs at every index
  of the string and once more past its end. A TypeError ends the run.
\<close>

fun scan :: "locators \<Rightarrow> bool \<Rightarrow> string \<Rightarrow> nat list \<Rightarrow> Scan \<Rightarrow> error + Scan" where
  "scan L ignoreLinks str [] sc = Inr sc"
| "scan L ignoreLinks str (i # is) sc =
     (case step L ignoreLinks str i sc of
        Inl e \<Rightarrow> Inl e
      | Inr sc' \<Rightarrow> scan L ignoreLinks str is sc')"

definition initScan :: Scan where
  "initScan = \<lparr>state = None, seekState = None, segments = []\<rparr>"

definition finish :: "Scan \<Rightarrow> Segment list list" where
  "finish sc = (case state sc of
       Some st \<Rightarrow> if seekingSuffix st then segments sc @ [segment st] else segments sc
     | None \<Rightarrow> segments sc)"

definition getCitationSegments :: "locators \<Rightarrow> string \<Rightarrow> bool \<Rightarrow> error + Segment list list" where
  "getCitationSegments L str ignoreLinks =
     (case scan L ignoreLinks str [0..<length str + 1] initScan of
        Inl e \<Rightarrow> Inl e
      | Inr sc \<Rightarrow> Inr (finish sc))"

section \<open>Citations: \<^verbatim>\<open>getCitations\<close>\<close>

text \<open>
  \<^verbatim>\<open>interface Citation\<close>: every field but \<^verbatim>\<open>id\<close> is optional, and \<^verbatim>\<open>id\<close> is assigned
  from a variable that may still be \<^verbatim>\<open>undefined\<close>. A flag that is set holds \<^verbatim>\<open>true\<close>.
  The field \<^verbatim>\<open>note\<close> of \<^verbatim>\<open>RenderedCitation\<close> is \<open>notePath\<close> here.
\<close>

record Citation =
  cite_prefix :: "string option"
  cite_suffix :: "string option"
  cite_infix :: "string option"
  cite_locator :: "string option"
  cite_label :: "string option"
  cite_litNote :: "string option"
  cite_citeType :: "string option"
  cite_suppress_author :: "bool option"
  cite_author_only :: "bool option"
  cite_composite :: "bool option"
  cite_id :: "string option"

record CitationGroup =
  data :: "Segment list"
  citations :: "Citation list"
  group_from :: nat
  group_to :: nat

record RenderedCitation = CitationGroup +
  val :: string
  noteIndex :: "nat option"
  notePath :: "string option"

text \<open>
  \<^verbatim>\<open>locatorToTerm\<close> of the missing \<^verbatim>\<open>./locators\<close>: a table from the locale to a table from
  the label to its term, a parameter of the model.
\<close>

type_synonym termTable = "string \<Rightarrow> (string \<Rightarrow> string option) option"

text \<open>
  Modelled from the spec: the table \<^verbatim>\<open>locatorToTerm\<close> of \<^verbatim>\<open>./locators\<close>, which is
  missing from the sources, for the one locale and the two labels the spec's examples use
  ("locale \<rightarrow> label \<rightarrow> display term", "the resolved page term").
\<close>

definition locatorToTermEn :: termTable where
  "locatorToTermEn locale =
     (if locale = ''en-US''
      then Some (\<lambda>l. if l = ''p.'' \<or> l = ''pp.'' then Some ''page'' else None)
      else None)"

text \<open>\<^verbatim>\<open>String.prototype.trim\<close>, on code units below 256.\<close>

definition isWhiteSpace :: "char \<Rightarrow> bool" where
  "isWhiteSpace c = (code c \<in> {9, 10, 11, 12, 13, 32, 160})"

definition trim :: "string \<Rightarrow> string" where
  "trim s = rev (dropWhile isWhiteSpace (rev (dropWhile isWhiteSpace s)))"

text \<open>\<^verbatim>\<open>if (x?.trim()) cite.x = x.trim()\<close>\<close>

definition trimmed :: "string option \<Rightarrow> string option" where
  "trimmed x = (case x of None \<Rightarrow> None | Some s \<Rightarrow> if trim s \<noteq> [] then Some (trim s) else None)"

text \<open>The variables of \<^verbatim>\<open>getCitations\<close> that \<^verbatim>\<open>push\<close> and the loop share.\<close>

record Vars =
  v_key :: "string option"
  v_prefix :: "string option"
  v_suffix :: "string option"
  v_infix :: "string option"
  v_locator :: "string option"
  v_label :: "string option"
  v_litNote :: "string option"
  v_citeType :: "string option"
  v_suppressAuthor :: bool
  v_onlyAuthor :: bool
  v_composite :: bool
  v_cites :: "Citation list"

definition initVars :: Vars where
  "initVars = \<lparr>v_key = None, v_prefix = None, v_suffix = None, v_infix = None, v_locator = None,
     v_label = None, v_litNote = None, v_citeType = None, v_suppressAuthor = False,
     v_onlyAuthor = False, v_composite = False, v_cites = []\<rparr>"

definition resolveLabel :: "termTable \<Rightarrow> string \<Rightarrow> string option \<Rightarrow> string option" where
  "resolveLabel locatorToTerm locale label =
     (case label of
        None \<Rightarrow> None
      | Some l \<Rightarrow>
          if l = [] then None
          else case locatorToTerm locale of
            None \<Rightarrow> None
          | Some terms \<Rightarrow>
              (case terms l of None \<Rightarrow> None | Some t \<Rightarrow> if t = [] then None else Some t))"

definition push :: "termTable \<Rightarrow> string \<Rightarrow> Vars \<Rightarrow> Vars" where
  "push locatorToTerm locale v =
     (let cite = \<lparr>
            cite_prefix = trimmed (v_prefix v),
            cite_suffix = trimmed (v_suffix v),
            cite_infix = trimmed (v_infix v),
            cite_locator = (case v_locator v of None \<Rightarrow> None | Some l \<Rightarrow> if l = [] then None else Some l),
            cite_label = resolveLabel locatorToTerm locale (v_label v),
            cite_litNote = trimmed (v_litNote v),
            cite_citeType = trimmed (v_citeType v),
            cite_suppress_author = (if \<not> v_composite v \<and> v_suppressAuthor v then Some True else None),
            cite_author_only =
              (if \<not> v_composite v \<and> \<not> v_suppressAuthor v \<and> v_onlyAuthor v then Some True else None),
            cite_composite = (if v_composite v then Some True else None),
            cite_id = v_key v\<rparr>
      in v\<lparr>v_composite := False, v_onlyAuthor := False, v_suppressAuthor := False,
           v_cites := v_cites v @ [cite]\<rparr>)"

text \<open>The body of the loop over the segments, at index \<open>i\<close>.\<close>

definition onSegment :: "termTable \<Rightarrow> string \<Rightarrow> nat \<Rightarrow> Segment \<Rightarrow> Vars \<Rightarrow> Vars" where
  "onSegment locatorToTerm locale i seg v =
     (case seg_type seg of
        At \<Rightarrow> if i = 0 then v\<lparr>v_composite := True\<rparr> else v
      | Suppressor \<Rightarrow>
          (let v1 = (if v_composite v
                     then push locatorToTerm locale
                            (v\<lparr>v_suffix := None, v_locator := None, v_label := None,
                               v_composite := False, v_onlyAuthor := True\<rparr>)
                     else v)
           in v1\<lparr>v_suppressAuthor := True\<rparr>)
      | Separator \<Rightarrow>
          (push locatorToTerm locale v)
            \<lparr>v_prefix := None, v_suffix := None, v_locator := None, v_label := None,
             v_infix := None, v_litNote := None, v_onlyAuthor := False,
             v_suppressAuthor := False, v_composite := False\<rparr>
      | Key \<Rightarrow> v\<lparr>v_key := Some (seg_val seg)\<rparr>
      | Prefix \<Rightarrow> v\<lparr>v_prefix := Some (seg_val seg)\<rparr>
      | Suffix \<Rightarrow> v\<lparr>v_suffix := Some (seg_val seg)\<rparr>
      | Locator \<Rightarrow> v\<lparr>v_locator := Some (seg_val seg)\<rparr>
      | LocatorLabel \<Rightarrow> v\<lparr>v_label := Some (seg_val seg)\<rparr>
      | LitNote \<Rightarrow> v\<lparr>v_litNote := Some (seg_val seg), v_composite := True\<rparr>
      | CiteType \<Rightarrow> v\<lparr>v_citeType := Some (seg_val seg)\<rparr>
      | _ \<Rightarrow> v)"

fun foldSegments :: "termTable \<Rightarrow> string \<Rightarrow> nat \<Rightarrow> Segment list \<Rightarrow> Vars \<Rightarrow> Vars" where
  "foldSegments locatorToTerm locale i [] v = v"
| "foldSegments locatorToTerm locale i (seg # segs) v =
     foldSegments locatorToTerm locale (i + 1) segs (onSegment locatorToTerm locale i seg v)"

text \<open>
  \<^verbatim>\<open>getCitations(segments, locale)\<close>. The result reads \<^verbatim>\<open>segments[0].from\<close>: a TypeError
  on the empty list.
\<close>

definition getCitations :: "termTable \<Rightarrow> Segment list \<Rightarrow> string \<Rightarrow> error + CitationGroup" where
  "getCitations locatorToTerm segs locale =
     (let v = push locatorToTerm locale (foldSegments locatorToTerm locale 0 segs initVars) in
      case segs of
        [] \<Rightarrow> Inl TypeError
      | s # _ \<Rightarrow> Inr \<lparr>data = segs, citations = v_cites v, group_from = seg_from s,
                       group_to = seg_to (last segs)\<rparr>)"

section \<open>Crossref labels: \<^verbatim>\<open>renderCrossrefType\<close>\<close>

text \<open>
  \<^verbatim>\<open>citeTypes.test(c.citeType)\<close> and the string concatenation turn \<^verbatim>\<open>undefined\<close> into
  the string "undefined"; \<^verbatim>\<open>join\<close> turns it into the empty string.
\<close>

definition jsString :: "string option \<Rightarrow> string" where
  "jsString x = (case x of None \<Rightarrow> ''undefined'' | Some s \<Rightarrow> s)"

fun join :: "string \<Rightarrow> string option list \<Rightarrow> string" where
  "join sep [] = []"
| "join sep [x] = (case x of None \<Rightarrow> [] | Some s \<Rightarrow> s)"
| "join sep (x # y # ys) = (case x of None \<Rightarrow> [] | Some s \<Rightarrow> s) @ sep @ join sep (y # ys)"

definition isCrossref :: "CitationGroup \<Rightarrow> bool" where
  "isCrossref g = list_ex (\<lambda>c. citeTypes (jsString (cite_citeType c))) (citations g)"

text \<open>
  The \<^verbatim>\<open>switch\<close> on \<^verbatim>\<open>citation.citations[0].citeType\<close> has no default: \<^verbatim>\<open>label\<close>, declared
  outside the loop, keeps what it held when no case applies.
\<close>

definition switchLabel :: "string option \<Rightarrow> string option \<Rightarrow> nat \<Rightarrow> string option" where
  "switchLabel label citeType n =
     (if citeType = Some ''fig'' then Some (if 1 < n then ''Figures '' else ''Figure '')
      else if citeType = Some ''eq'' then Some (if 1 < n then ''Equations '' else ''Equation '')
      else if citeType = Some ''tbl'' then Some (if 1 < n then ''Tables '' else ''Table '')
      else if citeType = Some ''sec'' then Some (if 1 < n then ''Sections '' else ''Section '')
      else label)"

definition buildCite :: "string \<Rightarrow> CitationGroup \<Rightarrow> RenderedCitation" where
  "buildCite citeLabel g = \<lparr>data = data g, citations = citations g, group_from = group_from g,
     group_to = group_to g, val = citeLabel, noteIndex = None, notePath = None\<rparr>"

fun renderLoop :: "string option \<Rightarrow> CitationGroup list \<Rightarrow> error + RenderedCitation list" where
  "renderLoop label [] = Inr []"
| "renderLoop label (g # gs) =
     (case citations g of
        [] \<Rightarrow> Inl TypeError
      | c0 # _ \<Rightarrow>
          (let label' = switchLabel label (cite_citeType c0) (length (citations g));
               citeId = join '', '' (map cite_id (citations g));
               citeLabel = ''['' @ jsString label' @ citeId @ '']''
           in case renderLoop label' gs of
                Inl e \<Rightarrow> Inl e
              | Inr cites \<Rightarrow> Inr (buildCite citeLabel g # cites)))"

definition renderCrossrefType :: "CitationGroup list \<Rightarrow> error + RenderedCitation list" where
  "renderCrossrefType groups = renderLoop None (filter isCrossref groups)"

section \<open>The three components in a row\<close>

text \<open>
  The callers run the scanner on a text, \<^verbatim>\<open>getCitations\<close> on each group it returns and
  \<^verbatim>\<open>renderCrossrefType\<close> on the list of the results.
\<close>

fun collect :: "(error + 'a) list \<Rightarrow> error + 'a list" where
  "collect [] = Inr []"
| "collect (r # rs) =
     (case r of
        Inl e \<Rightarrow> Inl e
      | Inr x \<Rightarrow> (case collect rs of Inl e \<Rightarrow> Inl e | Inr xs \<Rightarrow> Inr (x # xs)))"

definition segmentThenAggregate ::
  "locators \<Rightarrow> termTable \<Rightarrow> string \<Rightarrow> bool \<Rightarrow> string \<Rightarrow> error + CitationGroup list" where
  "segmentThenAggregate L locatorToTerm str ignoreLinks locale =
     (case getCitationSegments L str ignoreLinks of
        Inl e \<Rightarrow> Inl e
      | Inr groups \<Rightarrow> collect (map (\<lambda>segs. getCitations locatorToTerm segs locale) groups))"

definition renderText ::
  "locators \<Rightarrow> termTable \<Rightarrow> string \<Rightarrow> bool \<Rightarrow> string \<Rightarrow> error + RenderedCitation list" where
  "renderText L locatorToTerm str ignoreLinks locale =
     (case segmentThenAggregate L locatorToTerm str ignoreLinks locale of
        Inl e \<Rightarrow> Inl e
      | Inr groups \<Rightarrow> renderCrossrefType groups)"

section \<open>Notions the properties are stated with\<close>

text \<open>How many of the three flags a citation record has.\<close>

definition flagCount :: "Citation \<Rightarrow> nat" where
  "flagCount c = (if cite_composite c = None then 0 else 1)
     + (if cite_suppress_author c = None then 0 else 1)
     + (if cite_author_only c = None then 0 else 1)"

text \<open>The value of the last segment of a type in a list, if there is one.\<close>

definition lastVal :: "SegmentType \<Rightarrow> Segment list \<Rightarrow> string option" where
  "lastVal t segs = (case filter (\<lambda>s. seg_type s = t) segs of
       [] \<Rightarrow> None
     | x # xs \<Rightarrow> Some (seg_val (last (x # xs))))"

text \<open>
  The label the spec gives a crossref type (4.3): the singular for a group of one citation,
  the plural for more.
\<close>

definition typeLabel :: "string \<Rightarrow> bool \<Rightarrow> string" where
  "typeLabel t plural =
     (if t = ''fig'' then (if plural then ''Figures'' else ''Figure'')
      else if t = ''tbl'' then (if plural then ''Tables'' else ''Table'')
      else if t = ''eq'' then (if plural then ''Equations'' else ''Equation'')
      else (if plural then ''Sections'' else ''Section''))"

definition crossrefTypes :: "string list" where
  "crossrefTypes = [''fig'', ''tbl'', ''eq'', ''sec'']"









section \<open>The invariant of the scanner's loop\<close>

text \<open>\<^verbatim>\<open>text.slice(a, b)\<close>, for \<open>a \<le> b\<close>.\<close>

definition slice :: "string \<Rightarrow> nat \<Rightarrow> nat \<Rightarrow> string" where
  "slice str a b = take (b - a) (drop a str)"

text \<open>A segment is a proper range of the text and holds the text of its range.\<close>

definition segOK :: "string \<Rightarrow> Segment \<Rightarrow> bool" where
  "segOK str s = (seg_from s < seg_to s \<and> seg_to s \<le> length str \<and>
     seg_val s = slice str (seg_from s) (seg_to s))"

definition before :: "Segment \<Rightarrow> Segment \<Rightarrow> bool" where
  "before a b = (seg_to a \<le> seg_from b)"

definition meets :: "Segment \<Rightarrow> Segment \<Rightarrow> bool" where
  "meets a b = (seg_to a = seg_from b)"

text \<open>
  The segments a state stands for at index \<open>i\<close>: its list, and the segment it is
  collecting, ended at \<open>i\<close>. A bare state that seeks a suffix has pushed its current
  segment already.
\<close>

definition pend :: "nat \<Rightarrow> State \<Rightarrow> Segment list" where
  "pend i st = (if seekingSuffix st then segment st
     else segment st @ [(currentSegment st)\<lparr>seg_to := i\<rparr>])"

definition seekSegs :: "Scan \<Rightarrow> Segment list" where
  "seekSegs sc = (case seekState sc of None \<Rightarrow> [] | Some k \<Rightarrow> segment k)"

definition stateSegs :: "nat \<Rightarrow> Scan \<Rightarrow> Segment list" where
  "stateSegs i sc = (case state sc of None \<Rightarrow> [] | Some st \<Rightarrow> pend i st)"

definition allSegs :: "nat \<Rightarrow> Scan \<Rightarrow> Segment list" where
  "allSegs i sc = concat (segments sc) @ seekSegs sc @ stateSegs i sc"

text \<open>A group is one run of segments that meet, or two such runs.\<close>

definition twoPart :: "Segment list \<Rightarrow> bool" where
  "twoPart g = (\<exists>xs ys. g = xs @ ys \<and> successively meets xs \<and> successively meets ys)"

definition stateOK :: "Scan \<Rightarrow> bool" where
  "stateOK sc = (\<forall>st. state sc = Some st \<longrightarrow>
     (inBrackets st \<longrightarrow> 1 \<le> bracketDepth st \<and> \<not> seekingSuffix st) \<and>
     (seekingSuffix st \<longrightarrow> \<not> inKey st) \<and>
     (seekState sc \<noteq> None \<longrightarrow> inBrackets st))"

text \<open>Segments that hold their text and end at \<open>i\<close> or before.\<close>

definition within :: "string \<Rightarrow> nat \<Rightarrow> Segment list \<Rightarrow> bool" where
  "within str i xs = (\<forall>s\<in>set xs. segOK str s \<and> seg_to s \<le> i)"

definition Inv :: "string \<Rightarrow> nat \<Rightarrow> Scan \<Rightarrow> bool" where
  "Inv str i sc = (sorted_wrt before (allSegs i sc) \<and>
     within str i (allSegs i sc) \<and>
     successively meets (seekSegs sc) \<and>
     successively meets (stateSegs i sc) \<and>
     (\<forall>g\<in>set (segments sc). twoPart g) \<and>
     stateOK sc)"

text \<open>
  What \<^verbatim>\<open>endCurrent(i)\<close> adds to a state's list: a run of segments that meet, from the
  start of the current segment to \<open>i\<close>.
\<close>

definition run :: "string \<Rightarrow> nat \<Rightarrow> nat \<Rightarrow> Segment list \<Rightarrow> bool" where
  "run str a b new = (new \<noteq> [] \<and> successively meets new \<and> seg_from (hd new) = a \<and>
     seg_to (last new) = b \<and> (\<forall>s\<in>set new. segOK str s))"

definition ext :: "string \<Rightarrow> nat \<Rightarrow> nat \<Rightarrow> Segment list \<Rightarrow> Segment list \<Rightarrow> bool" where
  "ext str a b xs ys = (\<exists>new. ys = xs @ new \<and> run str a b new)"

text \<open>
  What the proofs of a step start from: the invariant holds at \<open>i\<close>, the state collects a
  segment, the label expression keeps its contract, and \<open>ch\<close> is the character at \<open>i\<close>.
\<close>

definition ready :: "locators \<Rightarrow> string \<Rightarrow> nat \<Rightarrow> Scan \<Rightarrow> State \<Rightarrow> char \<Rightarrow> bool" where
  "ready L str i sc st ch = (Inv str i sc \<and> state sc = Some st \<and> \<not> seekingSuffix st \<and>
     locators_wf L \<and> charAt str (int i) = Some ch)"

text \<open>The result of a block keeps the invariant, if the block ends the iteration.\<close>

definition flowOK :: "string \<Rightarrow> nat \<Rightarrow> flow \<Rightarrow> bool" where
  "flowOK str i f = (case f of Continue X \<Rightarrow> Inv str (Suc i) X | Fall X \<Rightarrow> True)"

text \<open>Segments laid out one after the other from an index, empty strings left out.\<close>

fun layout :: "nat \<Rightarrow> (SegmentType \<times> string) list \<Rightarrow> Segment list" where
  "layout a [] = []"
| "layout a ((t, w) # ws) =
     (if w = [] then layout a ws else mkSeg t a w # layout (a + length w) ws)"

text \<open>Whether a regular expression matches the empty string.\<close>

primrec nullable :: "rx \<Rightarrow> bool" where
  "nullable (Cls p) = False"
| "nullable (Seq a b) = (nullable a \<and> nullable b)"
| "nullable (Alt a b) = (nullable a \<or> nullable b)"
| "nullable (Opt a) = True"
| "nullable (Star a) = True"


section \<open>Evaluation\<close>

text \<open>The definitions a run on a given text unfolds.\<close>

lemmas char_defs = charAt_def code_def isLetter_def isNumber_def isPunctuation_def alphaNumeric_def
  punct_def punctTest_def nonKeyPunct_def space_def spaceTest_def preKey_def postKeyPunct_def
  citeTypes_def isTerminus_def isValidPreKey_def

lemmas scan_defs = newState_def newCurrent_def mkSeg_def endSegment_def pushCurrent_def seekLocator_def
  endCurrent_def setCurrent_def appendChar_def retype_def openState_def onOpenBracket_def onAt_def
  keyTerminus_def keyStart_def keyExplicit_def keyCloseBrace_def keyOpenBrace_def
  keySpace_def keyPunct_def keyOther_def onKey_def bracketChar_def onBrackets_def onChar_def step_def initScan_def finish_def getCitationSegments_def

lemmas cite_defs = trim_def trimmed_def isWhiteSpace_def initVars_def resolveLabel_def push_def
  onSegment_def getCitations_def segmentThenAggregate_def

lemmas render_defs = renderText_def renderCrossrefType_def isCrossref_def jsString_def
  switchLabel_def buildCite_def

section \<open>Runs of the scanner\<close>

text \<open>
  C1, at the text \<^verbatim>\<open>@\<close>, alone or before a newline: \<^verbatim>\<open>encounteredKey\<close> is set when the
  \<^verbatim>\<open>@\<close> is read, the next iteration finds a terminus while the state is in a key and not
  in brackets, and \<^verbatim>\<open>endCurrent(i); endSegment()\<close> push the group that holds the at
  segment and no key. (An \<^verbatim>\<open>@\<close> before any other character that cannot start a key drops
  the state instead: \<^verbatim>\<open>@!\<close> gives no group.)
\<close>

theorem lone_at_is_emitted:
  "getCitationSegments L ''@'' ignoreLinks
     = Inr [[\<lparr>seg_type = At, seg_from = 0, seg_to = 1, seg_val = ''@''\<rparr>]] \<and>
   getCitationSegments L [CHR ''@'', CHR 0x0A] ignoreLinks
     = Inr [[\<lparr>seg_type = At, seg_from = 0, seg_to = 1, seg_val = ''@''\<rparr>]] \<and>
   getCitationSegments L ''@!'' ignoreLinks = Inr []"
  by (simp add: char_defs scan_defs upt_rec Let_def)

section \<open>The scanner keeps its invariant\<close>

subsection \<open>The locator expression consumes something\<close>

lemma star_iter_length:
  assumes "\<And>s r. r \<in> set (m s) \<Longrightarrow> length r \<le> length s"
  shows "r \<in> set (star_iter m n s) \<Longrightarrow> length r \<le> length s"
proof (induction n arbitrary: s r)
  case 0
  then show ?case by simp
next
  case (Suc n)
  then show ?case using assms by (fastforce dest: Suc.IH)
qed

lemma rx_run_length: "r \<in> set (rx_run rx s) \<Longrightarrow> length r \<le> length s"
proof (induction rx arbitrary: s r)
  case (Cls p)
  then show ?case by (auto split: list.splits if_splits)
next
  case (Seq a b)
  then show ?case by (fastforce dest: Seq.IH)
next
  case (Alt a b)
  then show ?case by auto
next
  case (Opt a)
  then show ?case by auto
next
  case (Star a)
  then show ?case using star_iter_length[of "rx_run a"] by auto
qed

lemma rx_run_consumes: "\<not> nullable rx \<Longrightarrow> r \<in> set (rx_run rx s) \<Longrightarrow> length r < length s"
proof (induction rx arbitrary: s r)
  case (Cls p)
  then show ?case by (auto split: list.splits if_splits)
next
  case (Seq a b)
  from Seq.prems(2) obtain q where q: "q \<in> set (rx_run a s)" "r \<in> set (rx_run b q)" by auto
  show ?case
  proof (cases "nullable a")
    case False
    then show ?thesis using Seq.IH(1)[OF _ q(1)] rx_run_length[OF q(2)] by simp
  next
    case True
    then have "\<not> nullable b" using Seq.prems(1) by simp
    then show ?thesis using Seq.IH(2)[OF _ q(2)] rx_run_length[OF q(1)] by simp
  qed
next
  case (Alt a b)
  then show ?case by auto
qed simp_all

lemma locatorRx_not_nullable: "\<not> nullable locatorRx"
  by (simp add: locatorRx_def locItem_def locRange_def locNumbered_def locRoman_def Plus_def
      locOpen_def locWord_def)

lemma locatorRe_Some:
  assumes "locatorRe s = Some loc"
  shows "loc \<noteq> [] \<and> length loc \<le> length s \<and> loc = take (length loc) s"
proof -
  from assms obtain r rs where r: "rx_run locatorRx s = r # rs" "loc = take (length s - length r) s"
    by (auto simp: locatorRe_def split: list.splits)
  have "length r < length s"
    using rx_run_consumes[OF locatorRx_not_nullable, of r s] r(1) by simp
  then show ?thesis using r(2) by auto
qed

subsection \<open>Slices of the text and laid-out segments\<close>

lemma slice_length: "b \<le> length str \<Longrightarrow> length (slice str a b) = b - a"
  by (simp add: slice_def)

lemma slice_snoc: "a \<le> i \<Longrightarrow> i < length str \<Longrightarrow> slice str a (Suc i) = slice str a i @ [str ! i]"
  by (simp add: slice_def Suc_diff_le take_Suc_conv_app_nth)

lemma slice_single: "i < length str \<Longrightarrow> slice str i (Suc i) = [str ! i]"
  by (simp add: slice_def take_Suc_conv_app_nth)

lemma slice_split:
  assumes "a \<le> b" "b \<le> c"
  shows "slice str a c = slice str a b @ slice str b c"
proof -
  have "c - a = (b - a) + (c - b)" using assms by simp
  then have "take (c - a) (drop a str) = take (b - a) (drop a str) @ take (c - b) (drop (b - a) (drop a str))"
    by (simp only: take_add)
  moreover have "drop (b - a) (drop a str) = drop b str" using assms by simp
  ultimately show ?thesis by (simp add: slice_def)
qed


lemma run_single: "segOK str s \<Longrightarrow> seg_from s = a \<Longrightarrow> seg_to s = b \<Longrightarrow> run str a b [s]"
  by (simp add: run_def)

lemma run_Cons:
  "segOK str s \<Longrightarrow> seg_from s = a \<Longrightarrow> run str (seg_to s) b xs \<Longrightarrow> run str a b (s # xs)"
  by (auto simp: run_def successively_Cons meets_def)

lemma layout_append:
  "layout a (ws @ vs) = layout a ws @ layout (a + length (concat (map snd ws))) vs"
  by (induction a ws rule: layout.induct) (simp_all add: add.assoc)

lemma layout_run:
  assumes "concat (map snd ws) = slice str a b" "a \<le> b" "b \<le> length str"
  shows "(layout a ws = [] \<and> a = b) \<or> run str a b (layout a ws)"
  using assms
proof (induction ws arbitrary: a)
  case Nil
  then have "length (slice str a b) = 0" by simp
  then show ?case using Nil by (simp add: slice_length)
next
  case (Cons tw ws)
  obtain t w where tw: "tw = (t, w)" by (cases tw)
  show ?case
  proof (cases "w = []")
    case True
    then show ?thesis using Cons tw by simp
  next
    case False
    let ?a' = "a + length w"
    have len: "length w + length (concat (map snd ws)) = b - a"
      using Cons.prems tw slice_length[of b str a]
      by (metis concat.simps(2) length_append list.simps(9) snd_conv)
    moreover have "0 < length w" using False by simp
    ultimately have a': "?a' \<le> b" by arith
    have "w @ concat (map snd ws) = slice str a ?a' @ slice str ?a' b"
      using Cons.prems(1,2) tw a' slice_split[of a ?a' b str] by simp
    moreover have "length w = length (slice str a ?a')"
      using a' Cons.prems(3) by (simp add: slice_length)
    ultimately have w: "w = slice str a ?a'" and rest: "concat (map snd ws) = slice str ?a' b"
      by auto
    have ok: "segOK str (mkSeg t a w)"
      using False w a' Cons.prems(3) by (simp add: segOK_def mkSeg_def)
    from Cons.IH[OF rest a' Cons.prems(3)]
    show ?thesis
    proof
      assume h: "layout ?a' ws = [] \<and> ?a' = b"
      then have h1: "layout ?a' ws = []" and h2: "?a' = b" by blast+
      have "layout a (tw # ws) = [mkSeg t a w]" using False tw h1 by simp
      moreover have "run str a b [mkSeg t a w]"
        using ok h2 by (intro run_single) (simp_all add: mkSeg_def)
      ultimately show ?thesis by simp
    next
      assume "run str ?a' b (layout ?a' ws)"
      then have "run str a b (mkSeg t a w # layout ?a' ws)"
        using ok by (intro run_Cons) (simp_all add: mkSeg_def)
      then show ?thesis using False tw by simp
    qed
  qed
qed

subsection \<open>What \<^verbatim>\<open>endCurrent\<close> adds\<close>

lemma labelSegments_layout:
  "m_label m \<noteq> [] \<Longrightarrow> labelSegments m a =
     (layout a [(LocatorSuffix, m_sp0 m), (LocatorLabel, m_label m), (LocatorSuffix, m_sp1 m)],
      a + length (m_sp0 m) + length (m_label m) + length (m_sp1 m))"
  by (simp add: labelSegments_def Let_def)

lemma liveCur_facts:
  assumes "segOK str (cur\<lparr>seg_to := i\<rparr>)"
  shows "seg_from cur < i" "i \<le> length str" "seg_val cur = slice str (seg_from cur) i"
  using assms by (simp_all add: segOK_def)

lemma parsePossibleLocator_run:
  assumes wf: "locators_wf L" and live: "segOK str (cur\<lparr>seg_to := i\<rparr>)"
    and ne: "parsePossibleLocator L cur \<noteq> []"
  shows "run str (seg_from cur) i (parsePossibleLocator L cur)"
proof -
  note lf = liveCur_facts[OF live]
  from ne obtain m where m: "L (seg_val cur) = Some m"
    by (auto simp: parsePossibleLocator_def split: option.splits)
  note w = wf[unfolded locators_wf_def, rule_format, OF m]
  have wfm: "m_index m = 0" "m_whole m = m_sp0 m @ m_label m @ m_sp1 m"
    "take (length (m_whole m)) (seg_val cur) = m_whole m" "m_label m \<noteq> []"
    using w by blast+
  let ?sliced = "drop (length (m_whole m)) (seg_val cur)"
  from ne m wfm obtain loc where loc: "locatorRe ?sliced = Some loc"
    by (auto simp: parsePossibleLocator_def labelSegments_layout Let_def split: option.splits)
  note lo = locatorRe_Some[OF loc]
  let ?ws = "[(LocatorSuffix, m_sp0 m), (LocatorLabel, m_label m), (LocatorSuffix, m_sp1 m)]"
  let ?vs = "[(Locator, loc), (Suffix, drop (length loc) ?sliced)]"
  have eq: "parsePossibleLocator L cur = layout (seg_from cur) (?ws @ ?vs)"
    unfolding layout_append
    using m wfm loc lo
    by (simp add: parsePossibleLocator_def labelSegments_layout Let_def add.assoc)
  have "seg_val cur = m_whole m @ ?sliced"
    using wfm(3) by (metis append_take_drop_id)
  moreover have "?sliced = loc @ drop (length loc) ?sliced"
    using lo by (metis append_take_drop_id)
  ultimately have "concat (map snd (?ws @ ?vs)) = seg_val cur"
    using wfm(2) by simp
  then have "concat (map snd (?ws @ ?vs)) = slice str (seg_from cur) i" using lf(3) by simp
  from layout_run[OF this] lf ne show ?thesis unfolding eq by auto
qed

lemma parseExplicitLocator_run:
  assumes wf: "locators_wf L" and live: "segOK str (cur\<lparr>seg_to := i\<rparr>)"
    and ne: "fst (parseExplicitLocator L cur) \<noteq> []"
  shows "run str (seg_from cur) i (fst (parseExplicitLocator L cur))"
proof -
  note lf = liveCur_facts[OF live]
  from ne obtain m where m: "L (seg_val cur) = Some m"
    by (auto simp: parseExplicitLocator_def split: option.splits)
  note w = wf[unfolded locators_wf_def, rule_format, OF m]
  have wfm: "m_index m = 0" "m_whole m = m_sp0 m @ m_label m @ m_sp1 m"
    "take (length (m_whole m)) (seg_val cur) = m_whole m" "m_label m \<noteq> []"
    using w by blast+
  let ?sliced = "drop (length (m_whole m)) (seg_val cur)"
  let ?ws = "[(LocatorSuffix, m_sp0 m), (LocatorLabel, m_label m), (LocatorSuffix, m_sp1 m)]"
  let ?vs = "[(Locator, ?sliced)]"
  have sl: "?sliced \<noteq> []" using ne m wfm
    by (auto simp: parseExplicitLocator_def labelSegments_layout Let_def split: if_splits)
  have eq: "fst (parseExplicitLocator L cur) = layout (seg_from cur) (?ws @ ?vs)"
    unfolding layout_append
    using m wfm sl
    by (simp add: parseExplicitLocator_def labelSegments_layout Let_def add.assoc)
  have "seg_val cur = m_whole m @ ?sliced"
    using wfm(3) by (metis append_take_drop_id)
  then have "concat (map snd (?ws @ ?vs)) = seg_val cur"
    using wfm(2) by simp
  then have "concat (map snd (?ws @ ?vs)) = slice str (seg_from cur) i" using lf(3) by simp
  from layout_run[OF this] lf ne show ?thesis unfolding eq by auto
qed

lemma parseExplicitLocator_cur:
  "seg_from (snd (parseExplicitLocator L cur)) = seg_from cur"
  "seg_val (snd (parseExplicitLocator L cur)) = seg_val cur"
  "seg_to (snd (parseExplicitLocator L cur)) = seg_to cur"
  by (auto simp: parseExplicitLocator_def Let_def split: option.splits prod.splits)

lemma endCurrent_frame [simp]:
  "inBrackets (endCurrent L seek i st) = inBrackets st"
  "inExplicitKey (endCurrent L seek i st) = inExplicitKey st"
  "inExplicitLocator (endCurrent L seek i st) = inExplicitLocator st"
  "inKey (endCurrent L seek i st) = inKey st"
  "inLink (endCurrent L seek i st) = inLink st"
  "inSuffix (endCurrent L seek i st) = inSuffix st"
  "seekingSuffix (endCurrent L seek i st) = seekingSuffix st"
  "encounteredKey (endCurrent L seek i st) = encounteredKey st"
  "shouldCancelSeek (endCurrent L seek i st) = shouldCancelSeek st"
  "bracketDepth (endCurrent L seek i st) = bracketDepth st"
  by (simp_all add: endCurrent_def pushCurrent_def Let_def split: prod.splits)

lemma endCurrent_ext:
  assumes wf: "locators_wf L" and live: "segOK str ((currentSegment st)\<lparr>seg_to := i\<rparr>)"
  shows "ext str (seg_from (currentSegment st)) i (segment st) (segment (endCurrent L seek i st))"
proof -
  let ?cur = "currentSegment st"
  have push: "ext str (seg_from ?cur) i (segment st) (segment (pushCurrent i st))"
    using live by (auto simp: ext_def pushCurrent_def Let_def intro!: run_single)
  obtain segs cur' where pe: "parseExplicitLocator L ?cur = (segs, cur')" by (cases "parseExplicitLocator L ?cur")
  have cur': "seg_from cur' = seg_from ?cur" "seg_val cur' = seg_val ?cur"
    using parseExplicitLocator_cur[of L ?cur] pe by simp_all
  have push': "ext str (seg_from ?cur) i (segment st) (segment (pushCurrent i (st\<lparr>currentSegment := cur'\<rparr>)))"
    using live cur' by (auto simp: ext_def pushCurrent_def Let_def segOK_def intro!: run_single)
  have pp: "parsePossibleLocator L ?cur \<noteq> [] \<Longrightarrow>
      ext str (seg_from ?cur) i (segment st) (segment st @ parsePossibleLocator L ?cur)"
    using parsePossibleLocator_run[OF wf live] by (auto simp: ext_def)
  have px: "segs \<noteq> [] \<Longrightarrow> ext str (seg_from ?cur) i (segment st) (segment st @ segs)"
    using parseExplicitLocator_run[OF wf live] pe by (auto simp: ext_def)
  show ?thesis
    using push push' pp px pe by (simp add: endCurrent_def Let_def)
qed

subsection \<open>Runs of segments and the shapes of a step\<close>

lemma run_Cons_iff:
  "run str a b (s # xs) \<longleftrightarrow>
     segOK str s \<and> seg_from s = a \<and> (if xs = [] then seg_to s = b else run str (seg_to s) b xs)"
  by (auto simp: run_def successively_Cons meets_def)

lemma run_props:
  "run str a b new \<Longrightarrow> sorted_wrt before new \<and>
     (\<forall>s\<in>set new. a \<le> seg_from s \<and> seg_from s < seg_to s \<and> seg_to s \<le> b)"
proof (induction new arbitrary: a)
  case Nil
  then show ?case by (simp add: run_def)
next
  case (Cons s xs)
  then have s: "segOK str s" "seg_from s = a" by (simp_all add: run_Cons_iff)
  show ?case
  proof (cases "xs = []")
    case True
    then show ?thesis using Cons.prems s by (simp add: run_Cons_iff segOK_def)
  next
    case False
    then have "run str (seg_to s) b xs" using Cons.prems by (simp add: run_Cons_iff)
    from Cons.IH[OF this]
    have so: "sorted_wrt before xs"
      and bd: "\<forall>x\<in>set xs. seg_to s \<le> seg_from x \<and> seg_from x < seg_to x \<and> seg_to x \<le> b"
      by blast+
    from False obtain x where x: "x \<in> set xs" by (cases xs) auto
    have sb: "seg_to s \<le> b" using bd x by fastforce
    have sa: "seg_from s < seg_to s" using s by (simp add: segOK_def)
    have "\<forall>x\<in>set xs. a \<le> seg_from x" using bd sa s(2) by fastforce
    moreover have "\<forall>x\<in>set xs. before s x" using bd by (simp add: before_def)
    ultimately show ?thesis using so bd sb sa s(2) by simp
  qed
qed

lemma run_append:
  "run str a b xs \<Longrightarrow> run str b c ys \<Longrightarrow> run str a c (xs @ ys)"
  by (auto simp: run_def successively_append_iff meets_def)

lemma ext_refl_run: "run str a b new \<Longrightarrow> ext str a b xs (xs @ new)"
  by (auto simp: ext_def)

lemma ext_snoc:
  "ext str a b xs ys \<Longrightarrow> segOK str s \<Longrightarrow> seg_from s = b \<Longrightarrow> seg_to s = c \<Longrightarrow>
     ext str a c xs (ys @ [s])"
  unfolding ext_def using run_append[OF _ run_single] by fastforce

lemma newCurrent_ok:
  "charAt str (int i) = Some ch \<Longrightarrow> segOK str (newCurrent i ch t)"
  by (auto simp: charAt_def segOK_def newCurrent_def slice_single split: if_splits)

lemma newCurrent_sel [simp]:
  "seg_from (newCurrent i ch t) = i" "seg_to (newCurrent i ch t) = Suc i"
  "seg_type (newCurrent i ch t) = t" "seg_val (newCurrent i ch t) = [ch]"
  "(newCurrent i ch t)\<lparr>seg_to := Suc i\<rparr> = newCurrent i ch t"
  by (simp_all add: newCurrent_def)

lemma sorted_replace_last:
  assumes "sorted_wrt before (P @ [c])" "run str (seg_from c) b new"
  shows "sorted_wrt before (P @ new)"
  using assms run_props[OF assms(2)]
  by (auto simp: sorted_wrt_append before_def) (meson le_trans)

lemma meets_replace_last:
  assumes "successively meets (S @ [c])" "run str (seg_from c) b new"
  shows "successively meets (S @ new)"
  using assms by (auto simp: successively_append_iff run_def meets_def)

lemma sorted_wrt_prefix: "sorted_wrt P (xs @ ys) \<Longrightarrow> sorted_wrt P xs"
  by (simp add: sorted_wrt_append)

lemma successively_prefix: "successively P (xs @ ys) \<Longrightarrow> successively P xs"
  by (simp add: successively_append_iff)

lemma within_append [simp]: "within str i (xs @ ys) \<longleftrightarrow> within str i xs \<and> within str i ys"
  by (auto simp: within_def)

lemma within_Nil [simp]: "within str i []"
  by (simp add: within_def)

lemma within_mono: "within str i xs \<Longrightarrow> i \<le> j \<Longrightarrow> within str j xs"
  unfolding within_def using le_trans by blast

lemma within_run: "run str a b new \<Longrightarrow> b \<le> j \<Longrightarrow> within str j new"
  using run_props[of str a b new] unfolding within_def run_def using le_trans by blast

lemma within_new: "charAt str (int i) = Some ch \<Longrightarrow> within str (Suc i) [newCurrent i ch t]"
  using newCurrent_ok[of str i ch t] by (simp add: within_def)

lemma sorted_snoc_new:
  "sorted_wrt before P \<Longrightarrow> within str i P \<Longrightarrow> sorted_wrt before (P @ [newCurrent i ch t])"
  by (simp add: sorted_wrt_append before_def within_def)

text \<open>The state goes on: its segments at the next index extend its list by a run.\<close>

lemma Inv_cont:
  assumes inv: "Inv str i sc" and st: "state sc = Some st" and live: "\<not> seekingSuffix st"
    and ext: "ext str (seg_from (currentSegment st)) b (segment st) (pend (Suc i) st')"
    and b: "b \<le> Suc i"
    and ok: "stateOK (sc\<lparr>state := Some st'\<rparr>)"
  shows "Inv str (Suc i) (sc\<lparr>state := Some st'\<rparr>)"
proof -
  let ?E = "concat (segments sc) @ seekSegs sc"
  let ?c = "(currentSegment st)\<lparr>seg_to := i\<rparr>"
  from ext obtain new where new: "pend (Suc i) st' = segment st @ new"
    and run: "run str (seg_from ?c) b new" by (auto simp: ext_def)
  have old: "allSegs i sc = (?E @ segment st) @ [?c]"
    using st live by (simp add: allSegs_def stateSegs_def pend_def)
  have all: "allSegs (Suc i) (sc\<lparr>state := Some st'\<rparr>) = (?E @ segment st) @ new"
    using new by (simp add: allSegs_def stateSegs_def seekSegs_def)
  from inv have so: "sorted_wrt before ((?E @ segment st) @ [?c])"
    and oko: "within str i (?E @ segment st)"
    and me: "successively meets (segment st @ [?c])"
    and rest: "successively meets (seekSegs sc)" "\<forall>g\<in>set (segments sc). twoPart g"
    unfolding Inv_def old using st live by (simp_all add: stateSegs_def pend_def)
  have 1: "sorted_wrt before ((?E @ segment st) @ new)"
    by (rule sorted_replace_last[OF so run])
  have 2: "within str (Suc i) ((?E @ segment st) @ new)"
    using within_mono[OF oko, of "Suc i"] within_run[OF run b] by simp
  have 3: "successively meets (segment st @ new)"
    by (rule meets_replace_last[OF me run])
  show ?thesis
    unfolding Inv_def all using 1 2 3 rest ok new
    by (simp add: stateSegs_def seekSegs_def)
qed

lemma twoPart_run: "successively meets xs \<Longrightarrow> twoPart xs"
  unfolding twoPart_def by (rule exI[of _ xs], rule exI[of _ "[]"]) simp

lemma twoPart_append: "successively meets xs \<Longrightarrow> successively meets ys \<Longrightarrow> twoPart (xs @ ys)"
  unfolding twoPart_def by blast

lemma Inv_allSegs:
  assumes "Inv str i sc"
  shows "sorted_wrt before (allSegs i sc)" "within str i (allSegs i sc)"
    "successively meets (seekSegs sc)" "successively meets (stateSegs i sc)"
    "\<forall>g\<in>set (segments sc). twoPart g" "stateOK sc"
  using assms by (simp_all add: Inv_def)

text \<open>A scan whose segments are the emitted ones and the seek state's, in this order.\<close>

lemma Inv_rest:
  assumes inv: "Inv str i sc" and le: "i \<le> j"
    and segs: "segments sc' = segments sc" and st: "state sc' = None"
    and seek: "seekSegs sc' = seekSegs sc \<or> seekSegs sc' = []"
  shows "Inv str j sc'"
proof -
  note I = Inv_allSegs[OF inv]
  from seek obtain rest where all: "allSegs i sc = allSegs j sc' @ rest"
    using segs st by (auto simp: allSegs_def stateSegs_def)
  have 1: "sorted_wrt before (allSegs j sc')"
    using I(1) unfolding all by (simp add: sorted_wrt_append)
  have 2: "within str j (allSegs j sc')"
    using I(2) within_mono[OF _ le] unfolding all by simp
  have 3: "successively meets (seekSegs sc')" using seek I(3) by auto
  show ?thesis unfolding Inv_def using 1 2 3 I(5) segs st
    by (simp add: stateSegs_def stateOK_def)
qed

lemma Inv_drop: "Inv str i sc \<Longrightarrow> Inv str (Suc i) (sc\<lparr>state := None\<rparr>)"
  by (rule Inv_rest[where i=i and sc=sc]) (simp_all add: seekSegs_def)

lemma Inv_drop_both: "Inv str i sc \<Longrightarrow> Inv str (Suc i) (sc\<lparr>state := None, seekState := None\<rparr>)"
  by (rule Inv_rest[where i=i and sc=sc]) (simp_all add: seekSegs_def)

lemma Inv_stay:
  assumes inv: "Inv str i sc" and st: "state sc = None \<or> (\<exists>st. state sc = Some st \<and> seekingSuffix st)"
  shows "Inv str (Suc i) sc"
proof -
  note I = Inv_allSegs[OF inv]
  have same: "stateSegs (Suc i) sc = stateSegs i sc"
    using st by (auto simp: stateSegs_def pend_def)
  then have all: "allSegs (Suc i) sc = allSegs i sc" by (simp add: allSegs_def)
  have "within str (Suc i) (allSegs i sc)" using within_mono[OF I(2)] by simp
  then show ?thesis unfolding Inv_def all same using I by simp
qed

lemma bare_no_seek:
  "Inv str i sc \<Longrightarrow> state sc = Some st \<Longrightarrow> \<not> inBrackets st \<Longrightarrow> seekState sc = None"
  by (auto simp: Inv_def stateOK_def)

text \<open>
  The state's group is pushed, behind the seek state's segments if there are any: the
  group is the state's list, or the list with what \<^verbatim>\<open>endCurrent\<close> added.
\<close>

lemma Inv_emit:
  assumes inv: "Inv str i sc" and st: "state sc = Some st"
    and G: "G = segment st \<or> (\<not> seekingSuffix st \<and> ext str (seg_from (currentSegment st)) b (segment st) G \<and> b \<le> Suc i)"
    and sc': "segments sc' = segments sc @ [seekSegs sc @ G]" "seekState sc' = None" "state sc' = None"
  shows "Inv str (Suc i) sc'"
proof -
  note I = Inv_allSegs[OF inv]
  let ?E = "concat (segments sc) @ seekSegs sc"
  have all': "allSegs (Suc i) sc' = ?E @ G"
    using sc' by (simp add: allSegs_def stateSegs_def seekSegs_def)
  have old: "allSegs i sc = ?E @ pend i st"
    using st by (simp add: allSegs_def stateSegs_def)
  have pm: "successively meets (pend i st)" using I(4) st by (simp add: stateSegs_def)
  have "sorted_wrt before (?E @ G) \<and> within str (Suc i) (?E @ G) \<and> successively meets G"
    using G
  proof
    assume g: "G = segment st"
    obtain rest where p: "pend i st = G @ rest"
      unfolding g by (cases "seekingSuffix st") (simp_all add: pend_def)
    have "sorted_wrt before ((?E @ G) @ rest)" using I(1) unfolding old p by simp
    then have "sorted_wrt before (?E @ G)" by (rule sorted_wrt_prefix)
    moreover have "within str (Suc i) (?E @ G)"
      using within_mono[OF I(2), of "Suc i"] unfolding old p by simp
    moreover have "successively meets G" using pm unfolding p by (rule successively_prefix)
    ultimately show ?thesis by blast
  next
    assume g: "\<not> seekingSuffix st \<and> ext str (seg_from (currentSegment st)) b (segment st) G \<and> b \<le> Suc i"
    let ?c = "(currentSegment st)\<lparr>seg_to := i\<rparr>"
    from g obtain new where new: "G = segment st @ new"
      and run: "run str (seg_from ?c) b new" by (auto simp: ext_def)
    have p: "pend i st = segment st @ [?c]" using g by (simp add: pend_def)
    have "sorted_wrt before ((?E @ segment st) @ new)"
      using I(1) unfolding old p by (intro sorted_replace_last[OF _ run]) simp
    moreover have "within str (Suc i) ((?E @ segment st) @ new)"
      using within_mono[OF I(2), of "Suc i"] within_run[OF run, of "Suc i"] g unfolding old p by simp
    moreover have "successively meets (segment st @ new)"
      using pm unfolding p by (rule meets_replace_last[OF _ run])
    ultimately show ?thesis unfolding new by simp
  qed
  then have 1: "sorted_wrt before (?E @ G)"
    and 2: "within str (Suc i) (?E @ G)"
    and 3: "successively meets G" by blast+
  have 4: "twoPart (seekSegs sc @ G)" by (rule twoPart_append[OF I(3) 3])
  show ?thesis
    unfolding Inv_def all' using 1 2 4 I(5) sc'
    by (simp add: stateSegs_def seekSegs_def stateOK_def)
qed

lemma Inv_endSegment:
  assumes inv: "Inv str i sc" and st: "state sc = Some st" and seek: "seekState sc = None"
    and G: "segment st' = segment st \<or>
       (\<not> seekingSuffix st \<and> ext str (seg_from (currentSegment st)) b (segment st) (segment st') \<and> b \<le> Suc i)"
  shows "Inv str (Suc i) (endSegment st' sc)"
proof (cases "encounteredKey st'")
  case True
  show ?thesis
    by (rule Inv_emit[OF inv st G]) (use True seek in \<open>simp_all add: endSegment_def seekSegs_def\<close>)
next
  case False
  then have "endSegment st' sc = sc\<lparr>state := None\<rparr>" by (simp add: endSegment_def)
  then show ?thesis using Inv_drop[OF inv] by simp
qed

lemma Inv_cancel:
  assumes inv: "Inv str i sc" and seek: "seekState sc = Some k"
  shows "Inv str i (sc\<lparr>segments := segments sc @ [segment k], seekState := None\<rparr>)"
proof -
  note I = Inv_allSegs[OF inv]
  let ?sc = "sc\<lparr>segments := segments sc @ [segment k], seekState := None\<rparr>"
  have all: "allSegs i ?sc = allSegs i sc"
    using seek by (simp add: allSegs_def seekSegs_def stateSegs_def)
  have "twoPart (segment k)" using I(3) seek by (simp add: seekSegs_def twoPart_run)
  moreover have "stateOK ?sc" using I(6) by (simp add: stateOK_def)
  moreover have "stateSegs i ?sc = stateSegs i sc" by (simp add: stateSegs_def)
  ultimately show ?thesis unfolding Inv_def all using I by (simp add: seekSegs_def)
qed

text \<open>A new state that starts with the character at \<open>i\<close>.\<close>

lemma Inv_fresh:
  assumes inv: "Inv str i sc" and ch: "charAt str (int i) = Some ch"
    and segs: "segments sc' = segments sc" and st': "state sc' = Some st'"
    and fresh: "segment st' = []" "currentSegment st' = newCurrent i ch t" "\<not> seekingSuffix st'"
    and seek: "seekSegs sc' = seekSegs sc \<or> (seekSegs sc = [] \<and> seekSegs sc' = stateSegs i sc)"
    and ok: "stateOK sc'"
  shows "Inv str (Suc i) sc'"
proof -
  note I = Inv_allSegs[OF inv]
  let ?n = "newCurrent i ch t"
  let ?P = "concat (segments sc) @ seekSegs sc'"
  have all': "allSegs (Suc i) sc' = ?P @ [?n]"
    using segs st' fresh by (simp add: allSegs_def stateSegs_def pend_def)
  from seek obtain rest where old: "allSegs i sc = ?P @ rest"
    by (auto simp: allSegs_def)
  have P1: "sorted_wrt before ?P" using I(1) unfolding old by (simp add: sorted_wrt_append)
  have P2: "within str i ?P" using I(2) unfolding old by simp
  have 1: "sorted_wrt before (?P @ [?n])"
    by (rule sorted_snoc_new[OF P1 P2])
  have 2: "within str (Suc i) (?P @ [?n])"
    using within_mono[OF P2, of "Suc i"] within_new[OF ch] by simp
  have 3: "successively meets (seekSegs sc')" using seek I(3,4) by auto
  show ?thesis unfolding Inv_def all' using 1 2 3 I(5) ok segs st' fresh
    by (simp add: stateSegs_def pend_def)
qed

lemma Inv_stateD:
  assumes "Inv str i sc" "state sc = Some st"
  shows "inBrackets st \<Longrightarrow> 1 \<le> bracketDepth st" "inBrackets st \<Longrightarrow> \<not> seekingSuffix st"
    "seekingSuffix st \<Longrightarrow> \<not> inKey st" "seekState sc \<noteq> None \<Longrightarrow> inBrackets st"
  using assms by (auto simp: Inv_def stateOK_def)

lemma Inv_live:
  assumes "Inv str i sc" "state sc = Some st" "\<not> seekingSuffix st"
  shows "segOK str ((currentSegment st)\<lparr>seg_to := i\<rparr>)"
  using assms by (simp add: Inv_def allSegs_def stateSegs_def pend_def within_def)

lemma charAt_Some: "charAt str (int i) = Some ch \<Longrightarrow> i < length str \<and> str ! i = ch"
  by (auto simp: charAt_def split: if_splits)

lemma ext_end:
  assumes "locators_wf L" "segOK str ((currentSegment st)\<lparr>seg_to := i\<rparr>)"
    "segment st2 = segment st" "seg_from (currentSegment st2) = seg_from (currentSegment st)"
    "seg_val (currentSegment st2) = seg_val (currentSegment st)"
  shows "ext str (seg_from (currentSegment st)) i (segment st) (segment (endCurrent L seek i st2))"
proof -
  have "segOK str ((currentSegment st2)\<lparr>seg_to := i\<rparr>)"
    using assms(2,4,5) by (simp add: segOK_def)
  from endCurrent_ext[OF assms(1) this, of seek] show ?thesis using assms(3,4) by simp
qed

lemma ext_new:
  "ext str a i xs ys \<Longrightarrow> charAt str (int i) = Some ch \<Longrightarrow>
     ext str a (Suc i) xs (ys @ [newCurrent i ch t])"
  by (rule ext_snoc[where b=i]) (simp_all add: newCurrent_ok)

lemma ext_app:
  assumes live: "segOK str (cur\<lparr>seg_to := i\<rparr>)" and ch: "charAt str (int i) = Some ch"
    and c': "seg_from c' = seg_from cur" "seg_val c' = seg_val cur @ [ch]" "seg_to c' = Suc i"
  shows "ext str (seg_from cur) (Suc i) xs (xs @ [c'])"
proof -
  note lf = liveCur_facts[OF live] and cs = charAt_Some[OF ch]
  have "segOK str c'"
    using lf cs c' slice_snoc[of "seg_from cur" i str] by (simp add: segOK_def)
  then show ?thesis unfolding ext_def using c' by (auto intro!: run_single)
qed

text \<open>How a state that collects a segment may go on at the character \<open>ch\<close> of index \<open>i\<close>.\<close>

lemma Inv_next:
  assumes inv: "Inv str i sc" and st: "state sc = Some st" and live: "\<not> seekingSuffix st"
    and ch: "charAt str (int i) = Some ch"
    and flags: "inBrackets st' = inBrackets st" "inBrackets st \<longrightarrow> 1 \<le> bracketDepth st'"
    and shape:
      "(\<not> seekingSuffix st' \<and> ext str (seg_from (currentSegment st)) i (segment st) (segment st') \<and>
          seg_from (currentSegment st') = i \<and> seg_val (currentSegment st') = [ch])
       \<or> (\<not> seekingSuffix st' \<and> segment st' = segment st \<and>
          seg_from (currentSegment st') = seg_from (currentSegment st) \<and>
          seg_val (currentSegment st') = seg_val (currentSegment st) @ [ch])
       \<or> (seekingSuffix st' \<and> \<not> inKey st' \<and> \<not> inBrackets st \<and>
          (ext str (seg_from (currentSegment st)) i (segment st) (segment st') \<or>
           ext str (seg_from (currentSegment st)) (Suc i) (segment st) (segment st')))"
  shows "Inv str (Suc i) (sc\<lparr>state := Some st'\<rparr>)"
proof -
  note D = Inv_stateD[OF inv st] and lv = Inv_live[OF inv st live]
  let ?a = "seg_from (currentSegment st)"
  let ?c' = "(currentSegment st')\<lparr>seg_to := Suc i\<rparr>"
  have ok: "stateOK (sc\<lparr>state := Some st'\<rparr>)"
    using D flags shape by (auto simp: stateOK_def)
  from shape consider
      (new) "\<not> seekingSuffix st'" "ext str ?a i (segment st) (segment st')"
        "seg_from (currentSegment st') = i" "seg_val (currentSegment st') = [ch]"
    | (app) "\<not> seekingSuffix st'" "segment st' = segment st"
        "seg_from (currentSegment st') = ?a" "seg_val (currentSegment st') = seg_val (currentSegment st) @ [ch]"
    | (seek) b where "seekingSuffix st'" "ext str ?a b (segment st) (segment st')" "b \<le> Suc i"
    by fastforce
  then show ?thesis
  proof cases
    case new
    have "segOK str ?c'"
      using new(3,4) charAt_Some[OF ch] by (simp add: segOK_def slice_single)
    then have "ext str ?a (Suc i) (segment st) (segment st' @ [?c'])"
      using new by (intro ext_snoc[where b=i]) simp_all
    then have "ext str ?a (Suc i) (segment st) (pend (Suc i) st')"
      using new(1) by (simp add: pend_def)
    from Inv_cont[OF inv st live this _ ok] show ?thesis by simp
  next
    case app
    have "ext str ?a (Suc i) (segment st) (segment st @ [?c'])"
      using app by (intro ext_app[OF lv ch]) simp_all
    then have "ext str ?a (Suc i) (segment st) (pend (Suc i) st')"
      using app(1,2) by (simp add: pend_def)
    from Inv_cont[OF inv st live this _ ok] show ?thesis by simp
  next
    case seek
    then have "ext str ?a b (segment st) (pend (Suc i) st')" by (simp add: pend_def)
    from Inv_cont[OF inv st live this seek(3) ok] show ?thesis .
  qed
qed

section \<open>Properties of \<^verbatim>\<open>getCitations\<close>\<close>

subsection \<open>The citation pushed at the end\<close>

lemma push_cites:
  "v_cites (push T l v) \<noteq> []"
  "v_key (push T l v) = v_key v"
  "cite_id (last (v_cites (push T l v))) = v_key v"
  by (simp_all add: push_def Let_def)

lemma onSegment_key_None:
  "v_key v = None \<Longrightarrow> seg_type s \<noteq> Key \<Longrightarrow> v_key (onSegment T l i s v) = None"
  by (cases "seg_type s") (simp_all add: onSegment_def push_def Let_def)

lemma foldSegments_key_None:
  "v_key v = None \<Longrightarrow> \<forall>s\<in>set segs. seg_type s \<noteq> Key \<Longrightarrow>
     v_key (foldSegments T l i segs v) = None"
  by (induction segs arbitrary: i v) (simp_all add: onSegment_key_None)

text \<open>
  C10. On a segment list that is not empty, \<^verbatim>\<open>getCitations\<close> returns a group (no error)
  whose list of citations is not empty: the \<^verbatim>\<open>push()\<close> after the loop always adds
  one. When the list holds no segment of type key, the id of that last citation is
  undefined.
\<close>

theorem getCitations_pushes_final:
  assumes "segs \<noteq> []"
  shows "\<exists>g. getCitations T segs loc = Inr g \<and> citations g \<noteq> [] \<and>
     ((\<forall>s\<in>set segs. seg_type s \<noteq> Key) \<longrightarrow> cite_id (last (citations g)) = None)"
proof -
  obtain s rest where segs: "segs = s # rest" using assms by (cases segs) auto
  let ?v = "foldSegments T loc 0 segs initVars"
  have g: "getCitations T segs loc = Inr \<lparr>data = segs, citations = v_cites (push T loc ?v),
      group_from = seg_from s, group_to = seg_to (last segs)\<rparr>"
    by (simp add: getCitations_def segs Let_def)
  have "(\<forall>s\<in>set segs. seg_type s \<noteq> Key) \<Longrightarrow> v_key ?v = None"
    by (rule foldSegments_key_None) (simp_all add: initVars_def)
  then show ?thesis using g by (simp add: push_cites)
qed

theorem getCitations_pushes_final_witness:
  "\<exists>g. getCitations locatorToTermEn
       [\<lparr>seg_type = At, seg_from = 0, seg_to = 1, seg_val = ''@''\<rparr>] ''en-US'' = Inr g \<and>
     length (citations g) = 1 \<and> cite_id (last (citations g)) = None"
proof -
  let ?segs = "[\<lparr>seg_type = At, seg_from = 0, seg_to = 1, seg_val = ''@''\<rparr>]"
  from getCitations_pushes_final[of ?segs locatorToTermEn "''en-US''"]
  obtain g where g: "getCitations locatorToTermEn ?segs ''en-US'' = Inr g"
    and i: "cite_id (last (citations g)) = None" by auto
  have "length (citations g) = 1"
    using g by (auto simp: cite_defs Let_def)
  with g i show ?thesis by blast
qed

subsection \<open>The three flags\<close>

lemma push_flags:
  "\<forall>c\<in>set (v_cites v). flagCount c \<le> 1 \<Longrightarrow> \<forall>c\<in>set (v_cites (push T l v)). flagCount c \<le> 1"
  by (simp add: push_def Let_def flagCount_def)

lemma onSegment_flags:
  "\<forall>c\<in>set (v_cites v). flagCount c \<le> 1 \<Longrightarrow>
     \<forall>c\<in>set (v_cites (onSegment T l i s v)). flagCount c \<le> 1"
  by (cases "seg_type s") (simp_all add: onSegment_def Let_def push_def flagCount_def)

lemma foldSegments_flags:
  "\<forall>c\<in>set (v_cites v). flagCount c \<le> 1 \<Longrightarrow>
     \<forall>c\<in>set (v_cites (foldSegments T l i segs v)). flagCount c \<le> 1"
proof (induction segs arbitrary: i v)
  case Nil
  then show ?case by simp
next
  case (Cons s segs)
  show ?case unfolding foldSegments.simps
    by (rule Cons.IH) (rule onSegment_flags[OF Cons.prems])
qed

text \<open>
  C7, as the code has it: a citation record of \<^verbatim>\<open>getCitations\<close> has at most one of the
  flags composite, suppress-author and author-only (\<^verbatim>\<open>push\<close> sets them in an
  if / else-if chain), and it may have none.
\<close>

theorem flags_at_most_one:
  assumes "getCitations T segs loc = Inr g" and "c \<in> set (citations g)"
  shows "flagCount c \<le> 1"
proof -
  have "\<forall>c\<in>set (v_cites (push T loc (foldSegments T loc 0 segs initVars))). flagCount c \<le> 1"
    by (rule push_flags, rule foldSegments_flags) (simp add: initVars_def)
  moreover have "citations g = v_cites (push T loc (foldSegments T loc 0 segs initVars))"
    using assms(1) by (auto simp: getCitations_def Let_def split: list.splits)
  ultimately show ?thesis using assms(2) by simp
qed

theorem flags_at_most_one_witness:
  "\<exists>g c. getCitations locatorToTermEn
       [\<lparr>seg_type = At, seg_from = 0, seg_to = 1, seg_val = ''@''\<rparr>,
        \<lparr>seg_type = Key, seg_from = 1, seg_to = 8, seg_val = ''doe2020''\<rparr>] ''en-US'' = Inr g \<and>
     citations g = [c] \<and> cite_composite c = Some True \<and> flagCount c \<le> 1"
proof -
  let ?segs = "[\<lparr>seg_type = At, seg_from = 0, seg_to = 1, seg_val = ''@''\<rparr>,
        \<lparr>seg_type = Key, seg_from = 1, seg_to = 8, seg_val = ''doe2020''\<rparr>]"
  obtain g where g: "getCitations locatorToTermEn ?segs ''en-US'' = Inr g"
    by (simp add: getCitations_def)
  obtain c where c: "citations g = [c]" "cite_composite c = Some True"
    using g by (auto simp: cite_defs Let_def)
  have "flagCount c \<le> 1"
    using flags_at_most_one[OF g, of c] c by simp
  with g c show ?thesis by blast
qed

text \<open>
  C7, as stated, fails: the citation of \<^verbatim>\<open>[@doe2020]\<close> has none of the three flags.
\<close>

theorem no_flag_counterexample:
  "map_sum id (map (map flagCount \<circ> citations))
     (segmentThenAggregate locatorsEn locatorToTermEn ''[@doe2020]'' False ''en-US'') = Inr [[0]]"
  by code_simp

subsection \<open>A citation in brackets is not composite\<close>

lemma doe2020_segments:
  "getCitationSegments L ''[@doe2020]'' False = Inr [[
     \<lparr>seg_type = Bracket, seg_from = 0, seg_to = 1, seg_val = ''[''\<rparr>,
     \<lparr>seg_type = At, seg_from = 1, seg_to = 2, seg_val = ''@''\<rparr>,
     \<lparr>seg_type = Key, seg_from = 2, seg_to = 9, seg_val = ''doe2020''\<rparr>,
     \<lparr>seg_type = Bracket, seg_from = 9, seg_to = 10, seg_val = '']''\<rparr>]]"
  by (simp add: char_defs scan_defs upt_rec Let_def)

lemma bare_doe2020_segments:
  "getCitationSegments L ''@doe2020'' False = Inr [[
     \<lparr>seg_type = At, seg_from = 0, seg_to = 1, seg_val = ''@''\<rparr>,
     \<lparr>seg_type = Key, seg_from = 1, seg_to = 8, seg_val = ''doe2020''\<rparr>]]"
  by (simp add: char_defs scan_defs upt_rec Let_def)

text \<open>
  C5, as the code has it: \<^verbatim>\<open>[@doe2020]\<close> gives one group with the one citation
  \<^verbatim>\<open>{id: "doe2020"}\<close> and no flag, whatever the label expression, the term table and
  the locale are: the segment of type at stands at index 1 of the group, behind the
  opening bracket. The bare \<^verbatim>\<open>@doe2020\<close>, whose at segment stands at index 0, gives the
  composite citation.
\<close>

theorem bracketed_citation_has_no_flag:
  "map_sum id (map citations) (segmentThenAggregate L T ''[@doe2020]'' False loc)
     = Inr [[\<lparr>cite_prefix = None, cite_suffix = None, cite_infix = None, cite_locator = None,
        cite_label = None, cite_litNote = None, cite_citeType = None, cite_suppress_author = None,
        cite_author_only = None, cite_composite = None, cite_id = Some ''doe2020''\<rparr>]] \<and>
   map_sum id (map (map seg_type)) (getCitationSegments L ''[@doe2020]'' False)
     = Inr [[Bracket, At, Key, Bracket]] \<and>
   map_sum id (map citations) (segmentThenAggregate L T ''@doe2020'' False loc)
     = Inr [[\<lparr>cite_prefix = None, cite_suffix = None, cite_infix = None, cite_locator = None,
        cite_label = None, cite_litNote = None, cite_citeType = None, cite_suppress_author = None,
        cite_author_only = None, cite_composite = Some True, cite_id = Some ''doe2020''\<rparr>]]"
  by (simp add: segmentThenAggregate_def doe2020_segments bare_doe2020_segments cite_defs Let_def)

text \<open>C5, as stated, fails: the citation of \<^verbatim>\<open>[@doe2020]\<close> is not composite.\<close>

theorem bracketed_citation_counterexample:
  "map_sum id (map citations)
     (segmentThenAggregate locatorsEn locatorToTermEn ''[@doe2020]'' False ''en-US'')
   \<noteq> Inr [[\<lparr>cite_prefix = None, cite_suffix = None, cite_infix = None, cite_locator = None,
        cite_label = None, cite_litNote = None, cite_citeType = None, cite_suppress_author = None,
        cite_author_only = None, cite_composite = Some True, cite_id = Some ''doe2020''\<rparr>]]"
  by code_simp

subsection \<open>A locator label without a term\<close>


lemma lastVal_Nil [simp]: "lastVal t [] = None"
  by (simp add: lastVal_def)








subsection \<open>The blocks of the key branch\<close>

lemma ready_drop: "ready L str i sc st ch \<Longrightarrow> Inv str (Suc i) (sc\<lparr>state := None\<rparr>)"
  by (simp add: ready_def Inv_drop)

lemma ready_ext_end:
  assumes "ready L str i sc st ch"
    "segment st2 = segment st" "seg_from (currentSegment st2) = seg_from (currentSegment st)"
    "seg_val (currentSegment st2) = seg_val (currentSegment st)"
  shows "ext str (seg_from (currentSegment st)) i (segment st) (segment (endCurrent L seek i st2))"
  using assms by (intro ext_end) (auto simp: ready_def intro: Inv_live)

lemma ready_ext_new:
  assumes "ready L str i sc st ch" "ext str a i xs ys"
    "seg_from s = i" "seg_to s = Suc i" "seg_val s = [ch]"
  shows "ext str a (Suc i) xs (ys @ [s])"
proof -
  from assms(1) have "charAt str (int i) = Some ch" by (simp add: ready_def)
  then have "segOK str s" using assms(3-) charAt_Some[of str i ch] by (simp add: segOK_def slice_single)
  then show ?thesis using assms(2-) by (intro ext_snoc[where b=i]) simp_all
qed

lemma ready_emit:
  assumes "ready L str i sc st ch" "\<not> inBrackets st"
    "segment st' = segment st \<or> ext str (seg_from (currentSegment st)) i (segment st) (segment st')"
  shows "Inv str (Suc i) (endSegment st' sc)"
proof -
  from assms(1) have inv: "Inv str i sc" and st: "state sc = Some st" and live: "\<not> seekingSuffix st"
    by (simp_all add: ready_def)
  show ?thesis
    using assms(3) live
    by (intro Inv_endSegment[OF inv st bare_no_seek[OF inv st assms(2)], where b=i]) auto
qed

lemma ready_next:
  assumes "ready L str i sc st ch"
    and "inBrackets st' = inBrackets st" "inBrackets st \<longrightarrow> 1 \<le> bracketDepth st'"
    and "(\<not> seekingSuffix st' \<and> ext str (seg_from (currentSegment st)) i (segment st) (segment st') \<and>
          seg_from (currentSegment st') = i \<and> seg_val (currentSegment st') = [ch])
       \<or> (\<not> seekingSuffix st' \<and> segment st' = segment st \<and>
          seg_from (currentSegment st') = seg_from (currentSegment st) \<and>
          seg_val (currentSegment st') = seg_val (currentSegment st) @ [ch])
       \<or> (seekingSuffix st' \<and> \<not> inKey st' \<and> \<not> inBrackets st \<and>
          (ext str (seg_from (currentSegment st)) i (segment st) (segment st') \<or>
           ext str (seg_from (currentSegment st)) (Suc i) (segment st) (segment st')))"
  shows "Inv str (Suc i) (sc\<lparr>state := Some st'\<rparr>)"
  using assms(1) by (intro Inv_next[where st=st and ch=ch] assms(2-)) (simp_all add: ready_def)

lemma ready_depth: "ready L str i sc st ch \<Longrightarrow> inBrackets st \<Longrightarrow> 1 \<le> bracketDepth st"
  by (auto simp: ready_def dest: Inv_stateD)

lemma ready_live: "ready L str i sc st ch \<Longrightarrow> seekingSuffix st = False"
  by (simp add: ready_def)

lemmas ready_simps = ready_drop ready_ext_end ready_ext_new ready_emit ready_next ready_depth
  ready_live

lemma flowOK_simps [simp]:
  "flowOK str i (Continue X) = Inv str (Suc i) X" "flowOK str i (Fall X) = True"
  by (simp_all add: flowOK_def)

lemma keyStart_ok:
  assumes r: "ready L str i sc st ch"
  shows "flowOK str i (keyStart L i ch st sc)"
  using r by (simp add: keyStart_def Let_def setCurrent_def ready_simps[OF r])


lemma keyTerminus_ok:
  assumes inv: "Inv str i sc" and st: "state sc = Some st" and live: "\<not> seekingSuffix st"
    and wf: "locators_wf L"
  shows "flowOK str i (keyTerminus L i st sc)"
proof (cases "inBrackets st")
  case True
  then show ?thesis by (simp add: keyTerminus_def Inv_drop[OF inv])
next
  case False
  have "ext str (seg_from (currentSegment st)) i (segment st) (segment (endCurrent L (seekState sc) i st))"
    by (rule ext_end[OF wf Inv_live[OF inv st live]]) simp_all
  then have "Inv str (Suc i) (endSegment (endCurrent L (seekState sc) i st) sc)"
    using live by (intro Inv_endSegment[OF inv st bare_no_seek[OF inv st False], where b=i]) auto
  then show ?thesis using False by (simp add: keyTerminus_def)
qed

lemma ready_terminus: "ready L str i sc st ch \<Longrightarrow> flowOK str i (keyTerminus L i st sc)"
  by (rule keyTerminus_ok) (simp_all add: ready_def)

lemma keyExplicit_ok:
  assumes r: "ready L str i sc st ch"
  shows "flowOK str i (keyExplicit L i ch st sc)"
  using r by (simp add: keyExplicit_def Let_def setCurrent_def appendChar_def ready_simps[OF r])

lemma keyCloseBrace_ok:
  assumes r: "ready L str i sc st ch"
  shows "flowOK str i (keyCloseBrace L i ch st sc)"
  using r by (simp add: keyCloseBrace_def Let_def setCurrent_def ready_simps[OF r])

lemma keyOpenBrace_ok:
  assumes r: "ready L str i sc st ch"
  shows "flowOK str i (keyOpenBrace L i ch st sc)"
  using r by (simp add: keyOpenBrace_def Let_def setCurrent_def ready_simps[OF r])

lemma keySpace_ok:
  assumes r: "ready L str i sc st ch"
  shows "flowOK str i (keySpace L i ch st sc)"
  using r by (simp add: keySpace_def Let_def setCurrent_def ready_simps[OF r])

lemma keyPunct_ok:
  assumes r: "ready L str i sc st ch"
  shows "flowOK str i (keyPunct L i ch next st sc)"
  using r by (simp add: keyPunct_def Let_def setCurrent_def appendChar_def retype_def
      ready_simps[OF r] ready_terminus[OF r])

lemma keyOther_ok:
  assumes r: "ready L str i sc st ch"
  shows "flowOK str i (keyOther L i ch st sc)"
  using r by (simp add: keyOther_def Let_def ready_simps[OF r])

lemma keyAppend_ok:
  assumes r: "ready L str i sc st ch"
  shows "Inv str (Suc i) (sc\<lparr>state := Some (appendChar ch st)\<rparr>)"
  using r by (simp add: appendChar_def ready_simps[OF r])

lemma onKey_ok:
  assumes inv: "Inv str i sc" and st: "state sc = Some st" and key: "inKey st"
    and wf: "locators_wf L"
  shows "flowOK str i (onKey L i prev (charAt str (int i)) next st sc)"
proof -
  have live: "\<not> seekingSuffix st" using Inv_stateD(3)[OF inv st] key by blast
  note tm = keyTerminus_ok[OF inv st live wf]
  show ?thesis
  proof (cases "charAt str (int i)")
    case None
    then show ?thesis using tm by (simp add: onKey_def)
  next
    case (Some ch)
    then have r: "ready L str i sc st ch" using inv st live wf by (simp add: ready_def)
    have app: "flowOK str i (Continue (sc\<lparr>state := Some (appendChar ch st)\<rparr>))"
      using keyAppend_ok[OF r] by simp
    have ob: "flowOK str i (keyOpenBrace L i x st sc)" if "x = ch" for x
      using keyOpenBrace_ok[OF r] that by simp
    have cb: "flowOK str i (keyCloseBrace L i x st sc)" if "x = ch" for x
      using keyCloseBrace_ok[OF r] that by simp
    show ?thesis
      unfolding onKey_def Some
      by (simp add: tm keyStart_ok[OF r] keyExplicit_ok[OF r] cb ob keySpace_ok[OF r]
          keyPunct_ok[OF r] keyOther_ok[OF r] app del: flowOK_simps)
  qed
qed

subsection \<open>The bracket branch\<close>

lemma bracketChar_ok:
  assumes r: "ready L str i sc st ch"
    and st0: "segment st0 = segment st" "currentSegment st0 = currentSegment st"
      "inBrackets st0" "inBrackets st" "seekingSuffix st0 = False" "1 \<le> bracketDepth st0"
  shows "Inv str (Suc i) (sc\<lparr>state := Some (bracketChar L (seekState sc) i prev ch next st0)\<rparr>)"
  using r st0
  by (simp add: bracketChar_def Let_def setCurrent_def appendChar_def retype_def
      ready_simps[OF r] split: option.splits)


lemma onBrackets_ok:
  assumes inv: "Inv str i sc" and st: "state sc = Some st" and br: "inBrackets st"
    and wf: "locators_wf L"
  shows "Inv str (Suc i) (onBrackets L ignoreLinks i prev (charAt str (int i)) next st sc)"
proof (cases "charAt str (int i)")
  case None
  then show ?thesis by (simp add: onBrackets_def Inv_drop[OF inv])
next
  case (Some ch)
  note D = Inv_stateD[OF inv st]
  have live: "\<not> seekingSuffix st" using D(2) br by blast
  have r: "ready L str i sc st ch" using inv st live wf Some by (simp add: ready_def)
  let ?st0 = "if ch = CHR '']'' then st\<lparr>bracketDepth := bracketDepth st - 1\<rparr> else st"
  show ?thesis
  proof (cases "isTerminus (Some ch)")
    case True
    then show ?thesis using Some by (simp add: onBrackets_def Inv_drop[OF inv])
  next
    case nt: False
    show ?thesis
    proof (cases "ch = CHR '']'' \<and> bracketDepth ?st0 = 0")
      case True
      then have close: "ch = CHR '']''" "bracketDepth st - 1 = 0" by (simp_all split: if_splits)
      let ?st1 = "endCurrent L (seekState sc) i ?st0"
      let ?st2 = "?st1\<lparr>segment := segment ?st1 @ [newCurrent i ch Bracket]\<rparr>"
      have e: "ext str (seg_from (currentSegment st)) (Suc i) (segment st) (segment ?st2)"
        using close by (simp add: ready_simps[OF r])
      show ?thesis
      proof (cases "ignoreLinks \<and> (inLink ?st0 \<or> next = Some (CHR ''(''))")
        case True
        then show ?thesis using Some nt close
          by (simp add: onBrackets_def Let_def Inv_drop_both[OF inv])
      next
        case False
        then have nl: "(ignoreLinks \<and> (inLink st \<or> next = Some (CHR ''(''))) = False"
          by (simp split: if_splits)
        show ?thesis
        proof (cases "seekState sc")
          case None
          have "Inv str (Suc i) (endSegment ?st2 sc)"
            using e live by (intro Inv_endSegment[OF inv st None, where b="Suc i"]) simp
          then show ?thesis using Some nt close None
            by (simp add: onBrackets_def Let_def nl)
        next
          case (Some k)
          let ?sc' = "sc\<lparr>segments := segments sc @ [segment k @ segment ?st2], seekState := None,
             state := None\<rparr>"
          have "Inv str (Suc i) ?sc'"
            using e live Some
            by (intro Inv_emit[OF inv st, where G="segment ?st2" and b="Suc i"])
               (simp_all add: seekSegs_def)
          then show ?thesis using \<open>charAt str (int i) = Some ch\<close> nt close Some
            by (simp add: onBrackets_def Let_def nl)
        qed
      qed
    next
      case False
      then have nc: "ch = CHR '']'' \<longrightarrow> bracketDepth st - 1 \<noteq> 0" by simp
      have d: "1 \<le> bracketDepth ?st0" using nc D(1)[OF br] by auto
      have "Inv str (Suc i) (sc\<lparr>state := Some (bracketChar L (seekState sc) i prev ch next ?st0)\<rparr>)"
        using br live d by (intro bracketChar_ok[OF r]) simp_all
      then show ?thesis using Some nt nc by (simp add: onBrackets_def Let_def)
    qed
  qed
qed

subsection \<open>An opening bracket and an at sign\<close>

lemma openState_sel [simp]:
  "segment (openState i prev) = []" "currentSegment (openState i prev) = newCurrent i (CHR ''['') Bracket"
  "seekingSuffix (openState i prev) = False" "inBrackets (openState i prev) = True"
  "bracketDepth (openState i prev) = 1" "inKey (openState i prev) = False"
  by (simp_all add: openState_def newState_def)

text \<open>Flags and depth may change while the state's segments stay.\<close>

lemma Inv_flags:
  assumes inv: "Inv str i sc" and st: "state sc = Some st"
    and same: "segment st' = segment st" "currentSegment st' = currentSegment st"
      "seekingSuffix st' = seekingSuffix st" "inKey st' = inKey st" "inBrackets st' = inBrackets st"
    and d: "inBrackets st \<longrightarrow> 1 \<le> bracketDepth st'"
  shows "Inv str i (sc\<lparr>state := Some st'\<rparr>)"
proof -
  note I = Inv_allSegs[OF inv] and D = Inv_stateD[OF inv st]
  have p: "stateSegs i (sc\<lparr>state := Some st'\<rparr>) = stateSegs i sc"
    using st same by (simp add: stateSegs_def pend_def)
  then have all: "allSegs i (sc\<lparr>state := Some st'\<rparr>) = allSegs i sc"
    by (simp add: allSegs_def seekSegs_def)
  have "stateOK (sc\<lparr>state := Some st'\<rparr>)"
    using D same d by (auto simp: stateOK_def)
  then show ?thesis unfolding Inv_def all p using I by (simp add: seekSegs_def)
qed

lemma onOpenBracket_Fall:
  assumes inv: "Inv str i sc" and res: "onOpenBracket i prev next sc = Fall sc1"
  shows "Inv str i sc1"
proof (cases "state sc")
  case None
  then show ?thesis using res by (simp add: onOpenBracket_def split: if_splits)
next
  case (Some st)
  then have sc1: "sc1 = sc\<lparr>state := Some (st\<lparr>bracketDepth := bracketDepth st + 1\<rparr>)\<rparr>"
    using res by (simp add: onOpenBracket_def Let_def split: if_splits)
  show ?thesis unfolding sc1
    using Inv_stateD(1)[OF inv Some] by (intro Inv_flags[OF inv Some]) auto
qed

lemma onOpenBracket_Continue:
  assumes inv: "Inv str i sc" and ch: "charAt str (int i) = Some (CHR ''['')"
    and res: "onOpenBracket i prev next sc = Continue sc'"
  shows "Inv str (Suc i) sc'"
proof (cases "state sc")
  case None
  show ?thesis
  proof (cases "next = Some (CHR ''['')")
    case True
    then have "sc' = sc" using res None by (simp add: onOpenBracket_def)
    then show ?thesis using Inv_stay[OF inv] None by simp
  next
    case False
    then have sc': "sc' = sc\<lparr>state := Some (openState i prev)\<rparr>"
      using res None by (simp add: onOpenBracket_def)
    show ?thesis unfolding sc'
      by (rule Inv_fresh[OF inv ch, where st'="openState i prev" and t=Bracket])
         (simp_all add: seekSegs_def stateOK_def)
  qed
next
  case (Some st)
  note D = Inv_stateD[OF inv Some]
  let ?st1 = "st\<lparr>bracketDepth := bracketDepth st + 1\<rparr>"
  from res Some have d: "bracketDepth st + 1 = 1"
    and sc': "sc' = sc\<lparr>seekState := (if seekingSuffix st then Some ?st1 else seekState sc),
        state := Some (openState i prev)\<rparr>"
    by (simp_all add: onOpenBracket_def Let_def split: if_splits)
  have bare: "\<not> inBrackets st" using D(1) d by auto
  have ns: "seekState sc = None" by (rule bare_no_seek[OF inv Some bare])
  show ?thesis unfolding sc'
    by (rule Inv_fresh[OF inv ch, where st'="openState i prev" and t=Bracket])
       (use Some ns in \<open>simp_all add: seekSegs_def stateSegs_def pend_def stateOK_def\<close>)
qed

lemma onAt_ok:
  assumes inv: "Inv str i sc" and ch: "charAt str (int i) = Some (CHR ''@'')"
    and wf: "locators_wf L" and res: "onAt L i sc = Inr sc'"
  shows "Inv str (Suc i) sc'"
proof -
  let ?at = "newCurrent i (CHR ''@'') At"
  define sc1 where "sc1 = (case (seekState sc, state sc) of
      (Some k, Some st) \<Rightarrow>
        if shouldCancelSeek st
        then sc\<lparr>segments := segments sc @ [segment k], seekState := None\<rparr> else sc
    | _ \<Rightarrow> sc)"
  have inv1: "Inv str i sc1"
    unfolding sc1_def using inv Inv_cancel[OF inv]
    by (auto split: option.splits)
  have st1: "state sc1 = state sc"
    unfolding sc1_def by (auto split: option.splits)
  have ok: "\<not> (seekState sc \<noteq> None \<and> state sc = None)"
    using res by (auto simp: onAt_def split: if_splits)
  show ?thesis
  proof (cases "state sc")
    case None
    then have ns: "seekState sc = None" using ok by simp
    then have "sc1 = sc" by (simp add: sc1_def)
    then have sc': "sc' = sc\<lparr>state := Some ((newState ?at)\<lparr>currentSegment := ?at, inKey := True,
        encounteredKey := True\<rparr>)\<rparr>"
      using res None ns by (simp add: onAt_def Let_def sc1_def)
    show ?thesis unfolding sc'
      by (rule Inv_fresh[OF inv ch, where t=At and st'="(newState ?at)\<lparr>currentSegment := ?at,
            inKey := True, encounteredKey := True\<rparr>"])
         (simp_all add: newState_def seekSegs_def stateOK_def ns)
  next
    case (Some st)
    show ?thesis
    proof (cases "inBrackets st")
      case True
      have live: "\<not> seekingSuffix st" using Inv_stateD(2)[OF inv Some True] .
      have r: "ready L str i sc1 st (CHR ''@'')"
        using inv1 st1 Some live wf ch by (simp add: ready_def)
      have sc': "sc' = sc1\<lparr>state := Some ((endCurrent L (seekState sc1) i st)
          \<lparr>currentSegment := ?at, inKey := True, encounteredKey := True\<rparr>)\<rparr>"
        using res Some True ok st1 by (simp add: onAt_def Let_def sc1_def split: option.splits)
      show ?thesis unfolding sc' using True
        by (simp add: ready_simps[OF r])
    next
      case False
      have ns: "seekState sc = None" by (rule bare_no_seek[OF inv Some False])
      then have "sc1 = sc" by (simp add: sc1_def)
      then have sc': "sc' = sc\<lparr>state := Some ((newState ?at)\<lparr>currentSegment := ?at, inKey := True,
          encounteredKey := True\<rparr>)\<rparr>"
        using res Some False ns by (simp add: onAt_def Let_def sc1_def)
      show ?thesis unfolding sc'
        by (rule Inv_fresh[OF inv ch, where t=At and st'="(newState ?at)\<lparr>currentSegment := ?at,
              inKey := True, encounteredKey := True\<rparr>"])
           (simp_all add: newState_def seekSegs_def stateOK_def ns)
    qed
  qed
qed

subsection \<open>The loop body, the loop and the result\<close>

lemma onKey_Fall:
  "onKey L i prev c next st sc = Fall sc2 \<Longrightarrow> sc2 = sc \<and> inBrackets st"
  by (auto simp: onKey_def keyTerminus_def keyStart_def keyExplicit_def keyCloseBrace_def
      keyOpenBrace_def keySpace_def keyPunct_def keyOther_def Let_def
      split: if_splits option.splits)

lemma onChar_ok:
  assumes inv: "Inv str i sc" and wf: "locators_wf L"
    and res: "onChar L ignoreLinks i prev (charAt str (int i)) next sc = Inr sc'"
  shows "Inv str (Suc i) sc'"
proof (cases "charAt str (int i) = Some (CHR ''@'') \<and> isValidPreKey prev")
  case True
  then have "onAt L i sc = Inr sc'" using res by (simp add: onChar_def)
  then show ?thesis using True by (intro onAt_ok[OF inv _ wf]) simp_all
next
  case noAt: False
  show ?thesis
  proof (cases "state sc")
    case None
    then have "sc' = sc" using res noAt by (simp add: onChar_def)
    then show ?thesis using Inv_stay[OF inv] None by simp
  next
    case (Some st)
    note D = Inv_stateD[OF inv Some]
    show ?thesis
    proof (cases "seekingSuffix st \<and> \<not> spaceTest (charAt str (int i))")
      case True
      then have sc': "sc' = endSegment st sc" using res noAt Some by (simp add: onChar_def)
      have "\<not> inBrackets st" using D(2) True by blast
      then have ns: "seekState sc = None" by (rule bare_no_seek[OF inv Some])
      show ?thesis unfolding sc' by (rule Inv_endSegment[OF inv Some ns]) simp
    next
      case noEnd: False
      define f where "f = (if inKey st then onKey L i prev (charAt str (int i)) next st sc else Fall sc)"
      have res': "(case f of Continue X \<Rightarrow> Inr X
          | Fall sc2 \<Rightarrow>
              if inBrackets st then Inr (onBrackets L ignoreLinks i prev (charAt str (int i)) next st sc2)
              else if seekingSuffix st then Inr sc2
              else Inr (sc2\<lparr>state := None\<rparr>)) = (Inr sc' :: error + Scan)"
      proof -
        have "\<not> (charAt str (int i) = Some (CHR ''@'') \<and> isValidPreKey prev)" by (rule noAt)
        moreover have "\<not> (seekingSuffix st \<and> \<not> spaceTest (charAt str (int i)))" by (rule noEnd)
        ultimately have "onChar L ignoreLinks i prev (charAt str (int i)) next sc =
          (case f of Continue X \<Rightarrow> Inr X
          | Fall sc2 \<Rightarrow>
              if inBrackets st then Inr (onBrackets L ignoreLinks i prev (charAt str (int i)) next st sc2)
              else if seekingSuffix st then Inr sc2
              else Inr (sc2\<lparr>state := None\<rparr>))"
          unfolding onChar_def f_def Some by (simp only: if_False option.case)
        with res show ?thesis by (simp only:)
      qed
      have fOK: "flowOK str i f"
        unfolding f_def using onKey_ok[OF inv Some _ wf] by simp
      show ?thesis
      proof (cases f)
        case (Continue X)
        then show ?thesis using res' fOK by simp
      next
        case (Fall sc2)
        then have sc2: "sc2 = sc" "inKey st \<Longrightarrow> inBrackets st"
          using onKey_Fall[of L i prev "charAt str (int i)" "next" st sc sc2]
          unfolding f_def by (auto split: if_splits)
        show ?thesis
        proof (cases "inBrackets st")
          case True
          then have "sc' = onBrackets L ignoreLinks i prev (charAt str (int i)) next st sc"
            using res' Fall sc2 by simp
          then show ?thesis using onBrackets_ok[OF inv Some True wf] by simp
        next
          case False
          show ?thesis
          proof (cases "seekingSuffix st")
            case True
            then have "sc' = sc" using res' Fall sc2 False by simp
            then show ?thesis using Inv_stay[OF inv] Some True by simp
          next
            case nseek: False
            then have "sc' = sc\<lparr>state := None\<rparr>" using res' Fall sc2 False by simp
            then show ?thesis using Inv_drop[OF inv] by simp
          qed
        qed
      qed
    qed
  qed
qed

lemma step_ok:
  assumes inv: "Inv str i sc" and wf: "locators_wf L"
    and res: "step L ignoreLinks str i sc = Inr sc'"
  shows "Inv str (Suc i) sc'"
proof (cases "charAt str (int i) = Some (CHR ''['')")
  case True
  show ?thesis
  proof (cases "onOpenBracket i (charAt str (int i - 1)) (charAt str (int i + 1)) sc")
    case (Continue X)
    then have "X = sc'" using res True by (simp add: step_def Let_def)
    then show ?thesis using onOpenBracket_Continue[OF inv True Continue] by simp
  next
    case (Fall sc1)
    then have "onChar L ignoreLinks i (charAt str (int i - 1)) (charAt str (int i))
        (charAt str (int i + 1)) sc1 = Inr sc'"
      using res True by (simp add: step_def Let_def)
    then show ?thesis by (rule onChar_ok[OF onOpenBracket_Fall[OF inv Fall] wf])
  qed
next
  case False
  then have "onChar L ignoreLinks i (charAt str (int i - 1)) (charAt str (int i))
      (charAt str (int i + 1)) sc = Inr sc'"
    using res by (simp add: step_def Let_def)
  then show ?thesis by (rule onChar_ok[OF inv wf])
qed

lemma scan_ok:
  assumes wf: "locators_wf L"
  shows "Inv str a sc \<Longrightarrow> a \<le> b \<Longrightarrow> scan L ignoreLinks str [a..<b] sc = Inr sc' \<Longrightarrow> Inv str b sc'"
proof (induction "b - a" arbitrary: a sc)
  case 0
  then show ?case by simp
next
  case (Suc n)
  then have lt: "a < b" by simp
  then have up: "[a..<b] = a # [Suc a..<b]" by (simp add: upt_rec)
  from Suc.prems(3) obtain sc1 where s1: "step L ignoreLinks str a sc = Inr sc1"
    and rest: "scan L ignoreLinks str [Suc a..<b] sc1 = Inr sc'"
    unfolding up by (auto split: sum.splits)
  have "Inv str (Suc a) sc1" by (rule step_ok[OF Suc.prems(1) wf s1])
  moreover have "n = b - Suc a" using Suc.hyps(2) by simp
  ultimately show ?case using Suc.hyps(1)[of "Suc a" sc1] lt rest by simp
qed

lemma Inv_init: "Inv str 0 initScan"
  by (simp add: Inv_def initScan_def allSegs_def seekSegs_def stateSegs_def stateOK_def)

text \<open>What the invariant says of the groups that are returned.\<close>

lemma Inv_finish:
  assumes inv: "Inv str n sc"
  shows "sorted_wrt before (concat (finish sc)) \<and> within str n (concat (finish sc)) \<and>
     (\<forall>g\<in>set (finish sc). twoPart g)"
proof -
  note I = Inv_allSegs[OF inv]
  show ?thesis
  proof (cases "\<exists>st. state sc = Some st \<and> seekingSuffix st")
    case True
    then obtain st where st: "state sc = Some st" "seekingSuffix st" by blast
    have "\<not> inBrackets st" using Inv_stateD(2)[OF inv st(1)] st(2) by blast
    then have ns: "seekState sc = None" by (rule bare_no_seek[OF inv st(1)])
    have f: "finish sc = segments sc @ [segment st]" using st by (simp add: finish_def)
    have all: "allSegs n sc = concat (finish sc)"
      using st ns by (simp add: f allSegs_def seekSegs_def stateSegs_def pend_def)
    have "twoPart (segment st)"
      using I(4) st by (simp add: stateSegs_def pend_def twoPart_run)
    moreover have "sorted_wrt before (concat (finish sc))" using I(1) all by simp
    moreover have "within str n (concat (finish sc))" using I(2) all by simp
    ultimately show ?thesis using I(5) f by simp
  next
    case False
    then have f: "finish sc = segments sc" by (auto simp: finish_def split: option.splits)
    obtain rest where all: "allSegs n sc = concat (finish sc) @ rest"
      by (simp add: f allSegs_def)
    have "sorted_wrt before (concat (finish sc))"
      using I(1) unfolding all by (rule sorted_wrt_prefix)
    moreover have "within str n (concat (finish sc))" using I(2) unfolding all by simp
    ultimately show ?thesis using I(5) f by simp
  qed
qed

lemma getCitationSegments_Inv:
  assumes wf: "locators_wf L" and res: "getCitationSegments L str ignoreLinks = Inr groups"
  shows "sorted_wrt before (concat groups) \<and> within str (length str + 1) (concat groups) \<and>
     (\<forall>g\<in>set groups. twoPart g)"
proof -
  from res obtain sc where sc: "scan L ignoreLinks str [0..<length str + 1] initScan = Inr sc"
    and g: "groups = finish sc"
    by (auto simp: getCitationSegments_def split: sum.splits)
  have "Inv str (length str + 1) sc"
    by (rule scan_ok[OF wf Inv_init _ sc]) simp
  from Inv_finish[OF this] show ?thesis unfolding g .
qed

section \<open>What the segmenter returns\<close>

subsection \<open>Lists, the English locators and runs of adjacent segments\<close>

lemma sorted_wrt_concat:
  "sorted_wrt P (concat xss) \<Longrightarrow>
     (\<forall>xs\<in>set xss. sorted_wrt P xs) \<and> sorted_wrt (\<lambda>xs ys. \<forall>x\<in>set xs. \<forall>y\<in>set ys. P x y) xss"
  by (induction xss) (auto simp: sorted_wrt_append)

lemma firstPrefix_Some:
  "firstPrefix vocabulary s = Some l \<Longrightarrow> l \<noteq> [] \<and> take (length l) s = l"
  by (induction vocabulary) (auto split: if_splits)

lemma locatorsOf_wf: "locators_wf (locatorsOf vocabulary)"
proof (unfold locators_wf_def, intro allI impI)
  fix s m
  assume m: "locatorsOf vocabulary s = Some m"
  let ?sp0 = "takeWhile isSeparatorSpan s"
  let ?rest = "dropWhile isSeparatorSpan s"
  from m obtain l where l: "firstPrefix vocabulary ?rest = Some l"
    by (auto simp: locatorsOf_def Let_def split: option.splits)
  let ?sp1 = "takeWhile (\<lambda>c. c = CHR '' '' \<or> c = CHR 0x09) (drop (length l) ?rest)"
  have mm: "m = \<lparr>m_index = 0, m_whole = ?sp0 @ l @ ?sp1, m_sp0 = ?sp0, m_label = l, m_sp1 = ?sp1\<rparr>"
    using m l by (simp add: locatorsOf_def Let_def)
  note fp = firstPrefix_Some[OF l]
  have "?rest = l @ drop (length l) ?rest" using fp by (metis append_take_drop_id)
  moreover have "drop (length l) ?rest = ?sp1 @ dropWhile (\<lambda>c. c = CHR '' '' \<or> c = CHR 0x09) (drop (length l) ?rest)"
    by simp
  ultimately have "s = (?sp0 @ l @ ?sp1) @ dropWhile (\<lambda>c. c = CHR '' '' \<or> c = CHR 0x09) (drop (length l) ?rest)"
    by (metis append.assoc takeWhile_dropWhile_id)
  then have "take (length (?sp0 @ l @ ?sp1)) s = ?sp0 @ l @ ?sp1"
    by (metis append_eq_conv_conj)
  then show "m_index m = 0 \<and> m_whole m = m_sp0 m @ m_label m @ m_sp1 m \<and>
     take (length (m_whole m)) s = m_whole m \<and> m_label m \<noteq> []"
    using fp by (simp add: mm)
qed

lemma locatorsEn_wf: "locators_wf locatorsEn"
  unfolding locatorsEn_def by (rule locatorsOf_wf)



subsection \<open>Order\<close>

text \<open>
  C3. For every text (of code units below 256, as the model has them) and either value of
  \<^verbatim>\<open>ignoreLinks\<close>, when the segmenter returns its groups: every segment of every group
  has \<open>from < to\<close>; within a group each segment ends where or before the next begins, so
  the segments are sorted by position and no two overlap; and every segment of a group
  ends where or before every segment of a later group begins, so the spans of the groups
  do not overlap. The locator expression of
  \<^verbatim>\<open>./locators\<close> is a parameter: all that is asked of it is that a match is a prefix of
  the text it was run on, made of the blanks before the label, the label (not empty) and
  the blanks after it, which is what \<^verbatim>\<open>parsePossibleLocator\<close> reads from the match.
\<close>

theorem segments_ordered:
  assumes "locators_wf L" and "getCitationSegments L str ignoreLinks = Inr groups"
  shows "(\<forall>g\<in>set groups. \<forall>s\<in>set g. seg_from s < seg_to s) \<and>
     (\<forall>g\<in>set groups. sorted_wrt (\<lambda>a b. seg_to a \<le> seg_from b) g) \<and>
     sorted_wrt (\<lambda>g h. \<forall>a\<in>set g. \<forall>b\<in>set h. seg_to a \<le> seg_from b) groups"
proof -
  from getCitationSegments_Inv[OF assms]
  have so: "sorted_wrt before (concat groups)"
    and wi: "within str (length str + 1) (concat groups)" by blast+
  have b: "before = (\<lambda>a b. seg_to a \<le> seg_from b)" by (simp add: before_def fun_eq_iff)
  have "\<forall>g\<in>set groups. \<forall>s\<in>set g. seg_from s < seg_to s"
    using wi by (auto simp: within_def segOK_def)
  then show ?thesis using sorted_wrt_concat[OF so] unfolding b by blast
qed

theorem segments_ordered_witness:
  "locators_wf locatorsEn \<and>
   (\<exists>groups. getCitationSegments locatorsEn ''@key [p. 4] [@a; @b]'' False = Inr groups \<and>
      map (map (\<lambda>s. (seg_from s, seg_to s))) groups =
        [[(0, 1), (1, 4), (5, 6), (6, 8), (8, 9), (9, 10), (10, 11)],
         [(12, 13), (13, 14), (14, 15), (15, 16), (16, 17), (17, 18), (18, 19), (19, 20)]] \<and>
      sorted_wrt (\<lambda>g h. \<forall>a\<in>set g. \<forall>b\<in>set h. seg_to a \<le> seg_from b) groups)"
proof -
  have "map_sum id (map (map (\<lambda>s. (seg_from s, seg_to s))))
      (getCitationSegments locatorsEn ''@key [p. 4] [@a; @b]'' False) =
    Inr [[(0, 1), (1, 4), (5, 6), (6, 8), (8, 9), (9, 10), (10, 11)],
         [(12, 13), (13, 14), (14, 15), (15, 16), (16, 17), (17, 18), (18, 19), (19, 20)]]"
    by code_simp
  then obtain groups where g: "getCitationSegments locatorsEn ''@key [p. 4] [@a; @b]'' False = Inr groups"
    and m: "map (map (\<lambda>s. (seg_from s, seg_to s))) groups =
        [[(0, 1), (1, 4), (5, 6), (6, 8), (8, 9), (9, 10), (10, 11)],
         [(12, 13), (13, 14), (14, 15), (15, 16), (16, 17), (17, 18), (18, 19), (19, 20)]]"
    by (cases "getCitationSegments locatorsEn ''@key [p. 4] [@a; @b]'' False") auto
  from segments_ordered[OF locatorsEn_wf g]
  have s: "sorted_wrt (\<lambda>g h. \<forall>a\<in>set g. \<forall>b\<in>set h. seg_to a \<le> seg_from b) groups"
    by (elim conjE)
  show ?thesis
  proof (intro conjI exI[of _ groups])
    show "locators_wf locatorsEn" by (rule locatorsEn_wf)
  qed (rule g m s)+
qed

subsection \<open>The text of a group\<close>




subsection \<open>Links\<close>

text \<open>
  What the code does at the closing bracket. With \<^verbatim>\<open>ignoreLinks\<close> set, when the loop
  reads the \<^verbatim>\<open>]\<close> that closes a bracket group (the state is in brackets at depth 1) and
  the state's \<^verbatim>\<open>inLink\<close> is set or the next character is \<^verbatim>\<open>(\<close>, the state and the seek
  state are dropped and nothing is added to the result. The \<^verbatim>\<open>]\<close> reaches that test
  unless a key is being read and the \<^verbatim>\<open>]\<close> stands right after \<^verbatim>\<open>@\<close> or \<^verbatim>\<open>:\<close> or inside
  the braces of an explicit key. \<^verbatim>\<open>[@doe2020](http://x)\<close> gives no group, and
  \<^verbatim>\<open>[[Some Page]]\<close> gives none whatever the flag.
\<close>

lemma link_group_discarded:
  assumes st: "state sc = Some st" and br: "inBrackets st" and ns: "\<not> seekingSuffix st"
    and d: "bracketDepth st = 1"
    and c: "charAt str (int i) = Some (CHR '']'')"
    and link: "inLink st \<or> charAt str (int i + 1) = Some (CHR ''('')"
    and key: "\<not> inKey st \<or>
       (\<not> inExplicitKey st \<and> charAt str (int i - 1) \<noteq> Some (CHR ''@'') \<and>
        charAt str (int i - 1) \<noteq> Some (CHR '':''))"
  shows "step L True str i sc = Inr (sc\<lparr>state := None, seekState := None\<rparr>) \<and>
     getCitationSegments L ''[@doe2020](http://x)'' True = Inr [] \<and>
     getCitationSegments L ''[[Some Page]]'' ignoreLinks = Inr []"
proof (intro conjI)
  let ?prev = "charAt str (int i - 1)" and ?next = "charAt str (int i + 1)"
  have k: "(if inKey st then onKey L i ?prev (Some (CHR '']'')) ?next st sc else Fall sc) = Fall sc"
    using key br by (auto simp: onKey_def keyOther_def char_defs)
  have b: "onBrackets L True i ?prev (Some (CHR '']'')) ?next st sc = sc\<lparr>state := None, seekState := None\<rparr>"
    using d link by (auto simp: onBrackets_def isTerminus_def Let_def)
  have "onChar L True i ?prev (Some (CHR '']'')) ?next sc = Inr (sc\<lparr>state := None, seekState := None\<rparr>)"
    unfolding onChar_def using st ns br k b by (simp add: spaceTest_def)
  then show "step L True str i sc = Inr (sc\<lparr>state := None, seekState := None\<rparr>)"
    using c by (simp add: step_def Let_def)
  show "getCitationSegments L ''[@doe2020](http://x)'' True = Inr []"
    by (simp add: char_defs scan_defs upt_rec Let_def)
  show "getCitationSegments L ''[[Some Page]]'' ignoreLinks = Inr []"
    by (cases ignoreLinks) (simp_all add: char_defs scan_defs upt_rec Let_def)
qed

text \<open>
  C8, at \<^verbatim>\<open>@a [[b]]\<close> and \<^verbatim>\<open>@a [[n|@b]]\<close> with \<^verbatim>\<open>ignoreLinks\<close> set. \<^verbatim>\<open>inLink\<close> is set
  when the \<^verbatim>\<open>[\<close> that opens the state follows a \<^verbatim>\<open>[\<close>. Without a state, the first \<^verbatim>\<open>[\<close>
  of \<^verbatim>\<open>[[\<close> is skipped and the second opens the state: \<^verbatim>\<open>[[n|@b]]\<close> alone gives no
  group. After a bare citation the state that seeks a suffix is there, the first \<^verbatim>\<open>[\<close>
  opens the bracket state, behind a blank, and the second only raises the depth:
  \<^verbatim>\<open>inLink\<close> stays unset, and the group is returned with the brackets of the link in it,
  and with the citation inside the link if there is one. The same bare citation before a
  link target, \<^verbatim>\<open>@a [b](x)\<close>, gives no group.
\<close>

theorem link_after_bare_citation_is_kept:
  "map_sum id (map (map (\<lambda>s. (seg_type s, seg_from s, seg_to s, seg_val s))))
     (getCitationSegments L ''@a [[b]]'' True)
   = Inr [[(At, 0, 1, ''@''), (Key, 1, 2, ''a''), (Bracket, 3, 7, ''[[b]''), (Bracket, 7, 8, '']'')]] \<and>
   map_sum id (map (map (\<lambda>s. (seg_type s, seg_from s, seg_to s, seg_val s))))
     (getCitationSegments locatorsEn ''@a [[n|@b]]'' True)
   = Inr [[(At, 0, 1, ''@''), (Key, 1, 2, ''a''), (LitNote, 3, 6, ''[[n''),
           (LinkSeparator, 6, 7, ''|''), (At, 7, 8, ''@''), (Key, 8, 9, ''b''),
           (Suffix, 9, 10, '']''), (Bracket, 10, 11, '']'')]] \<and>
   getCitationSegments L ''[[n|@b]]'' True = Inr [] \<and>
   getCitationSegments L ''@a [b](x)'' True = Inr []"
proof (intro conjI)
  show "map_sum id (map (map (\<lambda>s. (seg_type s, seg_from s, seg_to s, seg_val s))))
     (getCitationSegments locatorsEn ''@a [[n|@b]]'' True)
   = Inr [[(At, 0, 1, ''@''), (Key, 1, 2, ''a''), (LitNote, 3, 6, ''[[n''),
           (LinkSeparator, 6, 7, ''|''), (At, 7, 8, ''@''), (Key, 8, 9, ''b''),
           (Suffix, 9, 10, '']''), (Bracket, 10, 11, '']'')]]"
    by code_simp
qed (simp_all add: char_defs scan_defs upt_rec Let_def)

section \<open>Properties of \<^verbatim>\<open>renderCrossrefType\<close>\<close>

lemma isCrossref_nonempty: "isCrossref g \<Longrightarrow> citations g \<noteq> []"
  by (auto simp: isCrossref_def)

lemma switchLabel_known:
  "t \<in> set crossrefTypes \<Longrightarrow> jsString (switchLabel lab (Some t) n) = typeLabel t (1 < n) @ '' ''"
  by (auto simp: crossrefTypes_def switchLabel_def typeLabel_def jsString_def)

lemma renderLoop_spec:
  assumes "\<forall>g\<in>set xs. citations g \<noteq> []"
  shows "\<exists>rs. renderLoop lab xs = Inr rs \<and> length rs = length xs \<and>
     (\<forall>k<length xs. \<forall>t. cite_citeType (hd (citations (xs ! k))) = Some t \<and> t \<in> set crossrefTypes \<longrightarrow>
        val (rs ! k) = ''['' @ typeLabel t (1 < length (citations (xs ! k))) @ '' '' @
           join '', '' (map cite_id (citations (xs ! k))) @ '']'')"
  using assms
proof (induction xs arbitrary: lab)
  case Nil
  then show ?case by simp
next
  case (Cons g gs)
  obtain c0 cs where cg: "citations g = c0 # cs" using Cons.prems by (cases "citations g") auto
  let ?lab = "switchLabel lab (cite_citeType c0) (length (citations g))"
  obtain rs where rs: "renderLoop ?lab gs = Inr rs" "length rs = length gs"
    and rest: "\<forall>k<length gs. \<forall>t. cite_citeType (hd (citations (gs ! k))) = Some t \<and>
        t \<in> set crossrefTypes \<longrightarrow>
        val (rs ! k) = ''['' @ typeLabel t (1 < length (citations (gs ! k))) @ '' '' @
           join '', '' (map cite_id (citations (gs ! k))) @ '']''"
    using Cons.IH[of ?lab] Cons.prems by auto
  let ?r = "buildCite (''['' @ jsString ?lab @ join '', '' (map cite_id (citations g)) @ '']'') g"
  have run: "renderLoop lab (g # gs) = Inr (?r # rs)"
    using rs(1) cg by (simp add: Let_def)
  have "\<forall>k<length (g # gs). \<forall>t. cite_citeType (hd (citations ((g # gs) ! k))) = Some t \<and>
        t \<in> set crossrefTypes \<longrightarrow>
        val ((?r # rs) ! k) = ''['' @ typeLabel t (1 < length (citations ((g # gs) ! k))) @ '' '' @
           join '', '' (map cite_id (citations ((g # gs) ! k))) @ '']''"
  proof (intro allI impI)
    fix k t
    assume k: "k < length (g # gs)"
      and t: "cite_citeType (hd (citations ((g # gs) ! k))) = Some t \<and> t \<in> set crossrefTypes"
    show "val ((?r # rs) ! k) = ''['' @ typeLabel t (1 < length (citations ((g # gs) ! k))) @ '' '' @
           join '', '' (map cite_id (citations ((g # gs) ! k))) @ '']''"
    proof (cases k)
      case 0
      then show ?thesis using t cg switchLabel_known[of t lab "length (citations g)"]
        by (simp add: buildCite_def)
    next
      case (Suc j)
      then show ?thesis using k t rest by simp
    qed
  qed
  then show ?case using run rs(2) by simp
qed

lemma fig_plot1:
  "map_sum id (map val) (renderText L T ''[@fig:plot1]'' False loc) = Inr [''[Figure plot1]'']"
  by (simp add: char_defs scan_defs cite_defs render_defs upt_rec Let_def)

text \<open>
  What the code does for a group whose first citation has one of the types fig, tbl, eq,
  sec: \<^verbatim>\<open>renderCrossrefType\<close> raises nothing and returns one rendered citation for each
  group it keeps, in order, and the display string of such a group is an opening bracket,
  the label of the type (singular for one citation, plural for more), a blank, the ids of
  the citations joined by a comma and a blank, and a closing bracket. The text
  \<^verbatim>\<open>[@fig:plot1]\<close>, taken through the three components, gives \<^verbatim>\<open>[Figure plot1]\<close>.
\<close>

lemma renderCrossrefType_typed_first:
  "\<exists>rs. renderCrossrefType gs = Inr rs \<and> length rs = length (filter isCrossref gs) \<and>
     (\<forall>k<length rs. \<forall>t. cite_citeType (hd (citations (filter isCrossref gs ! k))) = Some t \<and>
        t \<in> set crossrefTypes \<longrightarrow>
        val (rs ! k) = ''['' @ typeLabel t (1 < length (citations (filter isCrossref gs ! k))) @ '' '' @
           join '', '' (map cite_id (citations (filter isCrossref gs ! k))) @ '']'') \<and>
     map_sum id (map val) (renderText L T ''[@fig:plot1]'' False loc) = Inr [''[Figure plot1]'']"
proof -
  have "\<forall>g\<in>set (filter isCrossref gs). citations g \<noteq> []"
    by (simp add: isCrossref_nonempty)
  from renderLoop_spec[OF this, of None] fig_plot1[of L T loc] show ?thesis
    unfolding renderCrossrefType_def by auto
qed

text \<open>
  C6, at \<^verbatim>\<open>[@fig:a; @fig:b] [@config:x]\<close> and at \<^verbatim>\<open>[@figure:x]\<close>. The type test of the
  scanner and the filter of \<^verbatim>\<open>renderCrossrefType\<close> use an expression that is not anchored,
  so \<^verbatim>\<open>config\<close> and \<^verbatim>\<open>figure\<close> pass as types and their groups are rendered. The \<^verbatim>\<open>switch\<close>
  has no case for them and no default, and \<^verbatim>\<open>label\<close> is declared outside the loop: the
  second group of the first text, of one citation, gets the plural label of the group
  before it, \<^verbatim>\<open>[Figures x]\<close>, and the group of the second text gets \<^verbatim>\<open>[undefinedx]\<close>.
\<close>

theorem crossref_label_is_left_over:
  "map_sum id (map (\<lambda>r. (map cite_citeType (citations r), val r)))
     (renderText locatorsEn locatorToTermEn ''[@fig:a; @fig:b] [@config:x]'' False ''en-US'')
   = Inr [([Some ''fig'', Some ''fig''], ''[Figures a, b]''), ([Some ''config''], ''[Figures x]'')] \<and>
   map_sum id (map (\<lambda>r. (map cite_citeType (citations r), val r)))
     (renderText locatorsEn locatorToTermEn ''[@figure:x]'' False ''en-US'')
   = Inr [([Some ''figure''], ''[undefinedx]'')]"
  by code_simp

text \<open>
  C4, at \<^verbatim>\<open>[@a; @fig:b]\<close>: the first citation of the group has no type, the second has
  the type fig. The filter keeps the group, since it asks for a type in some citation of
  the group; the \<^verbatim>\<open>switch\<close> reads the first citation only, finds no case and leaves the
  label \<^verbatim>\<open>undefined\<close>.
\<close>

theorem crossref_filter_reads_any_citation:
  "map_sum id (map (map cite_citeType \<circ> citations))
     (segmentThenAggregate locatorsEn locatorToTermEn ''[@a; @fig:b]'' False ''en-US'')
     = Inr [[None, Some ''fig'']] \<and>
   map_sum id (map val) (renderText locatorsEn locatorToTermEn ''[@a; @fig:b]'' False ''en-US'')
     = Inr [''[undefineda, b]'']"
  by code_simp

end
